theory Spec2Isabelle
  imports Main "HOL-Library.Word" "HOL-Library.Signed_Division" "HOL-Library.Monad_Syntax"
begin

section \<open>The ring buffer of ring\_buffer.go\<close>

text \<open>
  The Go type \<^verbatim>\<open>RingBuffer\<close> is a struct with a byte slice, its size, the two cursors and
  the full flag. The mutex is left out: every method locks it on entry and unlocks it
  on every return, so a method is one atomic step on the remaining fields.
  Go's \<^verbatim>\<open>int\<close> is modelled as \<^typ>\<open>int\<close>: every sum the code forms is at most twice the
  length of an allocated slice, which is far below the 64-bit limit.
  A run-time panic (slice bounds, index out of range, division by zero, a length that
  \<^verbatim>\<open>make\<close> refuses) is the result \<open>None\<close>; the three error values the package
  returns are ordinary results.
\<close>

type_synonym byte = "8 word"

datatype err = ErrTooManyDataToWrite | ErrIsFull | ErrIsEmpty

record RingBuffer =
  rb_buf :: "byte list"
  rb_size :: int
  rb_r :: int
  rb_w :: int
  rb_isFull :: bool

subsection \<open>The Go primitives the methods use\<close>

text \<open>\<^verbatim>\<open>make([]byte, n)\<close>: a zeroed slice of length and capacity \<open>n\<close>. The call panics
  (\<^verbatim>\<open>makeslice: len out of range\<close>) when \<open>n < 0\<close> and when \<open>n\<close> is above the largest
  length the allocator accepts. That limit (\<^verbatim>\<open>maxAlloc\<close> of the Go run-time, \<open>2 ^ 48\<close> on
  64-bit Linux) belongs to the platform, not to this package, so it is the parameter
  \<open>lim\<close> of every function that allocates. Running out of memory below the limit ends
  the process; it is not a result of the call and is not modelled.\<close>

definition make_bytes :: "int \<Rightarrow> int \<Rightarrow> byte list option" where
  "make_bytes lim n = (if n < 0 \<or> lim < n then None else Some (replicate (nat n) 0))"

text \<open>\<^verbatim>\<open>s[lo:hi]\<close> read as a value; panics unless \<open>0 \<le> lo \<le> hi \<le> cap(s)\<close>. Every slice
  the package re-slices with an upper bound above its length has capacity equal to
  its length.\<close>

definition slice :: "'a list \<Rightarrow> int \<Rightarrow> int \<Rightarrow> 'a list option" where
  "slice xs lo hi =
     (if 0 \<le> lo \<and> lo \<le> hi \<and> hi \<le> int (length xs)
      then Some (take (nat (hi - lo)) (drop (nat lo) xs)) else None)"

text \<open>\<^verbatim>\<open>copy(dst[off:], src)\<close>: the slice expression panics unless \<open>0 \<le> off \<le> len(dst)\<close>;
  \<^verbatim>\<open>copy\<close> then overwrites \<open>min (len(dst) - off) (len(src))\<close> elements and never panics.
  The result is the whole of \<open>dst\<close> after the call.\<close>

definition copy_to :: "'a list \<Rightarrow> int \<Rightarrow> 'a list \<Rightarrow> 'a list option" where
  "copy_to dst off src =
     (if 0 \<le> off \<and> off \<le> int (length dst)
      then (let m = min (length dst - nat off) (length src)
            in Some (take (nat off) dst @ take m src @ drop (nat off + m) dst))
      else None)"

text \<open>\<^verbatim>\<open>s[i]\<close> as a read and \<^verbatim>\<open>s[i] = c\<close> as a write; both panic out of range.\<close>

definition index :: "'a list \<Rightarrow> int \<Rightarrow> 'a option" where
  "index xs i = (if 0 \<le> i \<and> i < int (length xs) then Some (xs ! nat i) else None)"

definition store :: "'a list \<Rightarrow> int \<Rightarrow> 'a \<Rightarrow> 'a list option" where
  "store xs i c = (if 0 \<le> i \<and> i < int (length xs) then Some (xs[nat i := c]) else None)"

text \<open>\<^verbatim>\<open>a % b\<close> on Go integers truncates towards zero and panics when \<open>b = 0\<close>.\<close>

definition go_mod :: "int \<Rightarrow> int \<Rightarrow> int option" where
  "go_mod a b = (if b = 0 then None else Some (a smod b))"

subsection \<open>Construction\<close>

definition New :: "int \<Rightarrow> int \<Rightarrow> RingBuffer option" where
  "New lim n =
     do { b \<leftarrow> make_bytes lim n;
          Some \<lparr>rb_buf = b, rb_size = n, rb_r = 0, rb_w = 0, rb_isFull = False\<rparr> }"

subsection \<open>Read and ReadByte\<close>

text \<open>The result of \<open>Read\<close> is the count, the error (\<open>None\<close> for \<^verbatim>\<open>nil\<close>), the destination
  after the call and the buffer after the call.\<close>

definition Read :: "RingBuffer \<Rightarrow> byte list \<Rightarrow> (int \<times> err option \<times> byte list \<times> RingBuffer) option" where
  "Read rb p =
     (if length p = 0 then Some (0, None, p, rb)
      else if rb_w rb = rb_r rb \<and> \<not> rb_isFull rb then Some (0, Some ErrIsEmpty, p, rb)
      else if rb_w rb > rb_r rb then
        (let n0 = rb_w rb - rb_r rb;
             n = (if n0 > int (length p) then int (length p) else n0)
         in do { src \<leftarrow> slice (rb_buf rb) (rb_r rb) (rb_r rb + n);
                 p1 \<leftarrow> copy_to p 0 src;
                 r1 \<leftarrow> go_mod (rb_r rb + n) (rb_size rb);
                 Some (n, None, p1, rb\<lparr>rb_r := r1\<rparr>) })
      else
        (let n0 = rb_size rb - rb_r rb + rb_w rb;
             n = (if n0 > int (length p) then int (length p) else n0)
         in do { p2 \<leftarrow>
                   (if rb_r rb + n \<le> rb_size rb
                    then do { src \<leftarrow> slice (rb_buf rb) (rb_r rb) (rb_r rb + n);
                              copy_to p 0 src }
                    else (let c1 = rb_size rb - rb_r rb
                          in do { src1 \<leftarrow> slice (rb_buf rb) (rb_r rb) (rb_size rb);
                                  p1 \<leftarrow> copy_to p 0 src1;
                                  src2 \<leftarrow> slice (rb_buf rb) 0 (n - c1);
                                  copy_to p1 c1 src2 }));
                 r1 \<leftarrow> go_mod (rb_r rb + n) (rb_size rb);
                 Some (n, None, p2, rb\<lparr>rb_r := r1, rb_isFull := False\<rparr>) }))"

definition ReadByte :: "RingBuffer \<Rightarrow> (byte \<times> err option \<times> RingBuffer) option" where
  "ReadByte rb =
     (if rb_w rb = rb_r rb \<and> \<not> rb_isFull rb then Some (0, Some ErrIsEmpty, rb)
      else do { b \<leftarrow> index (rb_buf rb) (rb_r rb);
                let r1 = rb_r rb + 1;
                let r2 = (if r1 = rb_size rb then 0 else r1);
                Some (b, None, rb\<lparr>rb_r := r2, rb_isFull := False\<rparr>) })"

subsection \<open>Write, WriteByte and WriteString\<close>

definition Write :: "RingBuffer \<Rightarrow> byte list \<Rightarrow> (int \<times> err option \<times> RingBuffer) option" where
  "Write rb p =
     (if length p = 0 then Some (0, None, rb)
      else if rb_isFull rb then Some (0, Some ErrIsFull, rb)
      else
        (let avail = (if rb_w rb \<ge> rb_r rb then rb_size rb - rb_w rb + rb_r rb
                      else rb_r rb - rb_w rb)
         in do { (e, q) \<leftarrow>
                   (if int (length p) > avail
                    then do { q \<leftarrow> slice p 0 avail; Some (Some ErrTooManyDataToWrite, q) }
                    else Some (None, p));
                 let n = int (length q);
                 (b, w1) \<leftarrow>
                   (if rb_w rb \<ge> rb_r rb then
                      (let c1 = rb_size rb - rb_w rb
                       in if c1 \<ge> n
                          then do { b \<leftarrow> copy_to (rb_buf rb) (rb_w rb) q;
                                    Some (b, rb_w rb + n) }
                          else do { q1 \<leftarrow> slice q 0 c1;
                                    b1 \<leftarrow> copy_to (rb_buf rb) (rb_w rb) q1;
                                    q2 \<leftarrow> slice q c1 n;
                                    b2 \<leftarrow> copy_to b1 0 q2;
                                    Some (b2, n - c1) })
                    else do { b \<leftarrow> copy_to (rb_buf rb) (rb_w rb) q;
                              Some (b, rb_w rb + n) });
                 let w2 = (if w1 = rb_size rb then 0 else w1);
                 let full = (if w2 = rb_r rb then True else rb_isFull rb);
                 Some (n, e, rb\<lparr>rb_buf := b, rb_w := w2, rb_isFull := full\<rparr>) }))"

definition WriteByte :: "RingBuffer \<Rightarrow> byte \<Rightarrow> (err option \<times> RingBuffer) option" where
  "WriteByte rb c =
     (if rb_w rb = rb_r rb \<and> rb_isFull rb then Some (Some ErrIsFull, rb)
      else do { b \<leftarrow> store (rb_buf rb) (rb_w rb) c;
                let w1 = rb_w rb + 1;
                let w2 = (if w1 = rb_size rb then 0 else w1);
                let full = (if w2 = rb_r rb then True else rb_isFull rb);
                Some (None, rb\<lparr>rb_buf := b, rb_w := w2, rb_isFull := full\<rparr>) })"

text \<open>\<open>WriteString\<close> reinterprets the string header as a byte slice over the same bytes
  and calls \<open>Write\<close>; the argument here is the string's byte sequence.\<close>

definition WriteString :: "RingBuffer \<Rightarrow> byte list \<Rightarrow> (int \<times> err option \<times> RingBuffer) option" where
  "WriteString rb s = Write rb s"

subsection \<open>Queries, Bytes and Reset\<close>

definition Length :: "RingBuffer \<Rightarrow> int" where
  "Length rb =
     (if rb_w rb = rb_r rb then (if rb_isFull rb then rb_size rb else 0)
      else if rb_w rb > rb_r rb then rb_w rb - rb_r rb
      else rb_size rb - rb_r rb + rb_w rb)"

definition Capacity :: "RingBuffer \<Rightarrow> int" where
  "Capacity rb = rb_size rb"

definition Free :: "RingBuffer \<Rightarrow> int" where
  "Free rb =
     (if rb_w rb = rb_r rb then (if rb_isFull rb then 0 else rb_size rb)
      else if rb_w rb < rb_r rb then rb_r rb - rb_w rb
      else rb_size rb - rb_w rb + rb_r rb)"

definition IsFull :: "RingBuffer \<Rightarrow> bool" where
  "IsFull rb = rb_isFull rb"

definition IsEmpty :: "RingBuffer \<Rightarrow> bool" where
  "IsEmpty rb = (\<not> rb_isFull rb \<and> rb_w rb = rb_r rb)"

text \<open>\<open>Bytes\<close> returns the fresh slice it filled (\<^verbatim>\<open>nil\<close> is the empty slice) together
  with the buffer after the call; the method assigns to no field.\<close>

definition Bytes :: "int \<Rightarrow> RingBuffer \<Rightarrow> (byte list \<times> RingBuffer) option" where
  "Bytes lim rb =
     (if rb_w rb = rb_r rb then
        (if rb_isFull rb
         then do { buf \<leftarrow> make_bytes lim (rb_size rb);
                   s1 \<leftarrow> slice (rb_buf rb) (rb_r rb) (int (length (rb_buf rb)));
                   buf1 \<leftarrow> copy_to buf 0 s1;
                   s2 \<leftarrow> slice (rb_buf rb) 0 (rb_w rb);
                   buf2 \<leftarrow> copy_to buf1 (rb_size rb - rb_r rb) s2;
                   Some (buf2, rb) }
         else Some ([], rb))
      else if rb_w rb > rb_r rb then
        do { buf \<leftarrow> make_bytes lim (rb_w rb - rb_r rb);
             s1 \<leftarrow> slice (rb_buf rb) (rb_r rb) (rb_w rb);
             buf1 \<leftarrow> copy_to buf 0 s1;
             Some (buf1, rb) }
      else
        (let n = rb_size rb - rb_r rb + rb_w rb
         in do { buf \<leftarrow> make_bytes lim n;
                 buf2 \<leftarrow>
                   (if rb_r rb + n < rb_size rb
                    then do { s1 \<leftarrow> slice (rb_buf rb) (rb_r rb) (rb_r rb + n);
                              copy_to buf 0 s1 }
                    else (let c1 = rb_size rb - rb_r rb
                          in do { s1 \<leftarrow> slice (rb_buf rb) (rb_r rb) (rb_size rb);
                                  buf1 \<leftarrow> copy_to buf 0 s1;
                                  s2 \<leftarrow> slice (rb_buf rb) 0 (n - c1);
                                  copy_to buf1 c1 s2 }));
                 Some (buf2, rb) }))"

definition Reset :: "RingBuffer \<Rightarrow> RingBuffer" where
  "Reset rb = rb\<lparr>rb_r := 0, rb_w := 0, rb_isFull := False\<rparr>"

subsection \<open>The blocks of Write\<close>

text \<open>The body of \<open>Write\<close> in four named pieces (free space, truncation of the input,
  the copy with its cursor, the wrap of the cursor); \<open>Write_blocks\<close> below shows that
  \<open>Write\<close> is their composition.\<close>

definition Write_avail :: "RingBuffer \<Rightarrow> int" where
  "Write_avail rb = (if rb_w rb \<ge> rb_r rb then rb_size rb - rb_w rb + rb_r rb
                     else rb_r rb - rb_w rb)"

definition Write_trunc :: "byte list \<Rightarrow> int \<Rightarrow> (err option \<times> byte list) option" where
  "Write_trunc p avail =
     (if int (length p) > avail
      then do { q \<leftarrow> slice p 0 avail; Some (Some ErrTooManyDataToWrite, q) }
      else Some (None, p))"

definition Write_copy :: "RingBuffer \<Rightarrow> byte list \<Rightarrow> (byte list \<times> int) option" where
  "Write_copy rb q =
     (let n = int (length q)
      in if rb_w rb \<ge> rb_r rb then
           (let c1 = rb_size rb - rb_w rb
            in if c1 \<ge> n
               then do { b \<leftarrow> copy_to (rb_buf rb) (rb_w rb) q;
                         Some (b, rb_w rb + n) }
               else do { q1 \<leftarrow> slice q 0 c1;
                         b1 \<leftarrow> copy_to (rb_buf rb) (rb_w rb) q1;
                         q2 \<leftarrow> slice q c1 n;
                         b2 \<leftarrow> copy_to b1 0 q2;
                         Some (b2, n - c1) })
         else do { b \<leftarrow> copy_to (rb_buf rb) (rb_w rb) q;
                   Some (b, rb_w rb + n) })"

definition Write_wrap :: "int \<Rightarrow> int \<Rightarrow> int" where
  "Write_wrap w1 sz = (if w1 = sz then 0 else w1)"


subsection \<open>Well-formed buffers and the unread bytes\<close>

text \<open>The invariant of the data model: positive capacity, storage of that length, both
  cursors inside the storage, and the full flag raised only on coincident cursors.\<close>

definition wf :: "RingBuffer \<Rightarrow> bool" where
  "wf rb = (0 < rb_size rb \<and> int (length (rb_buf rb)) = rb_size rb \<and>
            0 \<le> rb_r rb \<and> rb_r rb < rb_size rb \<and>
            0 \<le> rb_w rb \<and> rb_w rb < rb_size rb \<and>
            (rb_isFull rb \<longrightarrow> rb_r rb = rb_w rb))"

text \<open>\<open>ring_read B R k\<close> are the \<open>k\<close> bytes of storage \<open>B\<close> at positions \<open>R\<close>, \<open>R + 1\<close>, ...
  taken modulo the length of the storage. The unread bytes of a buffer, oldest first, are
  the \<open>Length\<close> bytes that start at the read cursor.\<close>

definition ring_read :: "'a list \<Rightarrow> nat \<Rightarrow> nat \<Rightarrow> 'a list" where
  "ring_read B R k = map (\<lambda>i. B ! ((R + i) mod length B)) [0..<k]"

definition unread :: "RingBuffer \<Rightarrow> byte list" where
  "unread rb = ring_read (rb_buf rb) (nat (rb_r rb)) (nat (Length rb))"


subsection \<open>Sequences of public operations\<close>

text \<open>One constructor per public method. \<open>step\<close> is the buffer after the call (\<open>None\<close> when
  the call panics); the query methods assign to no field.\<close>

datatype op =
    OpRead "byte list" | OpReadByte | OpWrite "byte list" | OpWriteByte byte
  | OpWriteString "byte list" | OpBytes | OpLength | OpCapacity | OpFree
  | OpIsFull | OpIsEmpty | OpReset

fun step :: "int \<Rightarrow> RingBuffer \<Rightarrow> op \<Rightarrow> RingBuffer option" where
  "step lim rb (OpRead p) = map_option (\<lambda>(n, e, p', rb'). rb') (Read rb p)"
| "step lim rb OpReadByte = map_option (\<lambda>(b, e, rb'). rb') (ReadByte rb)"
| "step lim rb (OpWrite p) = map_option (\<lambda>(n, e, rb'). rb') (Write rb p)"
| "step lim rb (OpWriteByte c) = map_option (\<lambda>(e, rb'). rb') (WriteByte rb c)"
| "step lim rb (OpWriteString s) = map_option (\<lambda>(n, e, rb'). rb') (WriteString rb s)"
| "step lim rb OpBytes = map_option snd (Bytes lim rb)"
| "step lim rb OpLength = Some rb"
| "step lim rb OpCapacity = Some rb"
| "step lim rb OpFree = Some rb"
| "step lim rb OpIsFull = Some rb"
| "step lim rb OpIsEmpty = Some rb"
| "step lim rb OpReset = Some (Reset rb)"

fun run :: "int \<Rightarrow> RingBuffer \<Rightarrow> op list \<Rightarrow> RingBuffer option" where
  "run lim rb [] = Some rb"
| "run lim rb (a # as) = (case step lim rb a of None \<Rightarrow> None | Some rb' \<Rightarrow> run lim rb' as)"

text \<open>The buffers that exist on a platform with allocator limit \<open>lim\<close>: those \<open>New\<close> returns
  and those a public method leaves behind when it returns.\<close>

inductive reachable :: "int \<Rightarrow> RingBuffer \<Rightarrow> bool" for lim :: int where
  fresh: "New lim n = Some rb \<Longrightarrow> reachable lim rb"
| after: "reachable lim rb \<Longrightarrow> step lim rb a = Some rb' \<Longrightarrow> reachable lim rb'"

section \<open>Lemmas\<close>

subsection \<open>Reading a ring\<close>

lemma length_ring_read [simp]: "length (ring_read B R k) = k"
  by (simp add: ring_read_def)

lemma ring_read_flat:
  assumes "R + k \<le> length B"
  shows "ring_read B R k = take k (drop R B)"
proof (rule nth_equalityI)
  show "length (ring_read B R k) = length (take k (drop R B))"
    using assms by simp
next
  fix i assume "i < length (ring_read B R k)"
  then have i: "i < k" by simp
  then have "R + i < length B" using assms by simp
  then show "ring_read B R k ! i = take k (drop R B) ! i"
    using i by (simp add: ring_read_def)
qed

lemma ring_read_wrap:
  assumes "R < length B" "length B \<le> R + k" "k \<le> length B"
  shows "ring_read B R k = drop R B @ take (R + k - length B) B"
proof (rule nth_equalityI)
  show "length (ring_read B R k) = length (drop R B @ take (R + k - length B) B)"
    using assms by simp
next
  fix i assume "i < length (ring_read B R k)"
  then have i: "i < k" by simp
  show "ring_read B R k ! i = (drop R B @ take (R + k - length B) B) ! i"
  proof (cases "R + i < length B")
    case True
    then have "i < length B - R" by arith
    then show ?thesis using i True by (simp add: ring_read_def nth_append)
  next
    case False
    then have m: "(R + i) mod length B = R + i - length B"
      using assms i by (simp add: mod_if)
    have a: "\<not> i < length B - R" using False by arith
    have b: "i - (length B - R) = R + i - length B" using False assms by arith
    have c: "R + i - length B < R + k - length B" using False i by arith
    show ?thesis using i a c assms
      by (simp add: ring_read_def nth_append m b)
  qed
qed

lemma length_unread: "wf rb \<Longrightarrow> int (length (unread rb)) = Length rb"
  by (auto simp: unread_def wf_def Length_def)

lemma wf_nat:
  assumes "wf rb"
  shows "\<exists>R W. rb_r rb = int R \<and> rb_w rb = int W \<and> rb_size rb = int (length (rb_buf rb)) \<and>
    R < length (rb_buf rb) \<and> W < length (rb_buf rb) \<and> (rb_isFull rb \<longrightarrow> R = W)"
proof -
  from assms have "rb_r rb = int (nat (rb_r rb)) \<and> rb_w rb = int (nat (rb_w rb)) \<and>
      rb_size rb = int (length (rb_buf rb)) \<and>
      nat (rb_r rb) < length (rb_buf rb) \<and> nat (rb_w rb) < length (rb_buf rb) \<and>
      (rb_isFull rb \<longrightarrow> nat (rb_r rb) = nat (rb_w rb))"
    by (auto simp: wf_def)
  then show ?thesis by blast
qed

lemma Bytes_unread:
  assumes "wf rb" "rb_size rb \<le> lim"
  shows "Bytes lim rb = Some (unread rb, rb)"
proof -
  have le: "int (length (rb_buf rb)) \<le> lim"
    using assms by (simp add: wf_def)
  from assms(1) obtain R W where
    n: "rb_r rb = int R" "rb_w rb = int W" "rb_size rb = int (length (rb_buf rb))"
    and lt: "R < length (rb_buf rb)" "W < length (rb_buf rb)"
    and f: "rb_isFull rb \<longrightarrow> R = W"
    using wf_nat by blast
  let ?B = "rb_buf rb"
  consider (full) "W = R" "rb_isFull rb" | (empty) "W = R" "\<not> rb_isFull rb"
    | (gt) "R < W" | (lt) "W < R" by fastforce
  then show ?thesis
  proof cases
    case full
    then show ?thesis using lt le
      by (simp add: Bytes_def unread_def Length_def n make_bytes_def slice_def copy_to_def
          ring_read_wrap nat_diff_distrib)
  next
    case empty
    then show ?thesis
      by (simp add: Bytes_def unread_def Length_def n ring_read_def)
  next
    case gt
    then have "int W - int R \<le> lim" using lt le by simp
    then show ?thesis using gt lt
      by (simp add: Bytes_def unread_def Length_def n make_bytes_def slice_def copy_to_def
          ring_read_flat nat_diff_distrib)
  next
    case lt
    have e: "nat (int (length ?B) - int R + int W) = length ?B - R + W"
      using \<open>R < length ?B\<close> by arith
    have "int (length ?B) - int R + int W \<le> lim" using lt le by simp
    then show ?thesis using lt \<open>R < length ?B\<close> \<open>W < length ?B\<close>
      by (simp add: Bytes_def unread_def Length_def n make_bytes_def slice_def copy_to_def
          ring_read_wrap nat_diff_distrib Let_def e)
  qed
qed

subsection \<open>Slices and copies at natural-number offsets\<close>

lemma smod_nonneg: "0 \<le> a \<Longrightarrow> 0 < b \<Longrightarrow> (a::int) smod b = a mod b"
  by (cases "a = 0") (simp_all add: signed_modulo_int_def)

lemma go_mod_pos: "0 \<le> a \<Longrightarrow> 0 < b \<Longrightarrow> go_mod a b = Some (a mod b)"
  by (simp add: go_mod_def smod_nonneg)

lemma copy_to_0:
  "length src = k \<Longrightarrow> k \<le> length dst \<Longrightarrow> copy_to dst 0 src = Some (src @ drop k dst)"
  by (auto simp: copy_to_def min_def)

lemma copy_to_mid:
  "off = int (length a) \<Longrightarrow> length src = k \<Longrightarrow> k \<le> length b \<Longrightarrow>
     copy_to (a @ b) off src = Some (a @ src @ drop k b)"
  by (auto simp: copy_to_def min_def)

lemma slice_nat:
  "lo \<le> hi \<Longrightarrow> hi \<le> length xs \<Longrightarrow>
     slice xs (int lo) (int hi) = Some (take (hi - lo) (drop lo xs))"
  by (simp add: slice_def nat_diff_distrib)

subsection \<open>What Read returns\<close>

lemma Read_unread:
  assumes "wf rb" "Length rb \<noteq> 0" "p \<noteq> []"
  defines "m \<equiv> min (Length rb) (int (length p))"
  shows "Read rb p = Some (m, None, take (nat m) (unread rb) @ drop (nat m) p,
           rb\<lparr>rb_r := (rb_r rb + m) mod rb_size rb, rb_isFull := False\<rparr>)"
proof -
  from assms(1) obtain R W where
    n: "rb_r rb = int R" "rb_w rb = int W" "rb_size rb = int (length (rb_buf rb))"
    and lt: "R < length (rb_buf rb)" "W < length (rb_buf rb)"
    and f: "rb_isFull rb \<longrightarrow> R = W"
    using wf_nat by blast
  let ?B = "rb_buf rb"
  let ?N = "length ?B"
  have ne: "\<not> (W = R \<and> \<not> rb_isFull rb)"
    using assms(2) by (auto simp: Length_def n split: if_splits)
  have lp: "length p \<noteq> 0" using assms(3) by simp
  consider (gt) "R < W" | (le) "W \<le> R" by fastforce
  then show ?thesis
  proof cases
    case gt
    then have nf: "\<not> rb_isFull rb" using f by auto
    have L: "Length rb = int (W - R)" using gt by (simp add: Length_def n)
    define k where "k = min (W - R) (length p)"
    have m: "m = int k" by (simp add: m_def L k_def)
    have k: "k \<le> W - R" "k \<le> length p" by (simp_all add: k_def)
    have LN: "nat (Length rb) = W - R" by (simp only: L nat_int)
    have u: "unread rb = take (W - R) (drop R ?B)"
      using gt lt by (simp add: unread_def LN n ring_read_flat)
    have s: "slice ?B (int R) (int R + int k) = Some (take k (drop R ?B))"
      using k gt lt by (simp add: slice_def)
    have c: "copy_to p 0 (take k (drop R ?B)) = Some (take k (drop R ?B) @ drop k p)"
      using k gt lt by (intro copy_to_0) simp_all
    have g: "go_mod (int R + int k) (int ?N) = Some ((int R + int k) mod int ?N)"
      using lt by (intro go_mod_pos) auto
    have n0: "(if int W - int R > int (length p) then int (length p) else int W - int R) = int k"
      using gt by (simp add: k_def min_def; arith)
    have st: "\<And>x. rb\<lparr>rb_r := x, rb_isFull := False\<rparr> = rb\<lparr>rb_r := x\<rparr>"
      using nf by (cases rb) simp
    show ?thesis using gt lp k
      by (simp add: Read_def n Let_def n0 s c g m u st min_def)
  next
    case le
    then have full: "W < R \<or> (W = R \<and> rb_isFull rb)" using ne by auto
    have L: "Length rb = int (?N - R + W)" using full lt by (auto simp: Length_def n)
    define k where "k = min (?N - R + W) (length p)"
    have m: "m = int k" by (simp add: m_def L k_def)
    have k: "k \<le> ?N - R + W" "k \<le> length p" by (simp_all add: k_def)
    have LN: "nat (Length rb) = ?N - R + W" by (simp only: L nat_int)
    have u: "unread rb = drop R ?B @ take W ?B"
      using le lt by (simp add: unread_def LN n ring_read_wrap)
    have n0: "(if int ?N - int R + int W > int (length p) then int (length p) else int ?N - int R + int W) = int k"
      using lt by (simp add: k_def min_def; arith)
    have g: "go_mod (int R + int k) (int ?N) = Some ((int R + int k) mod int ?N)"
      using lt by (intro go_mod_pos) auto
    have c1: "nat (int ?N - int R) = ?N - R" by simp
    show ?thesis
    proof (cases "R + k \<le> ?N")
      case True
      have s: "slice ?B (int R) (int R + int k) = Some (take k (drop R ?B))"
        using True by (simp add: slice_def)
      have c: "copy_to p 0 (take k (drop R ?B)) = Some (take k (drop R ?B) @ drop k p)"
        using k True lt by (intro copy_to_0) simp_all
      have t: "take k (unread rb) = take k (drop R ?B)"
        using True by (simp add: u)
      show ?thesis using le lp ne True
        by (simp add: Read_def n Let_def n0 s c g m t)
    next
      case False
      have s1: "slice ?B (int R) (int ?N) = Some (drop R ?B)"
        using lt by (simp add: slice_def nat_diff_distrib)
      have c: "copy_to p 0 (drop R ?B) = Some (drop R ?B @ drop (?N - R) p)"
        using k False lt by (intro copy_to_0) simp_all
      have kc: "nat (int k - (int ?N - int R)) = k - (?N - R)" using lt by arith
      have s2: "slice ?B 0 (int k - (int ?N - int R)) = Some (take (k - (?N - R)) ?B)"
        using False lt k by (simp add: slice_def kc)
      have c2: "copy_to (drop R ?B @ drop (?N - R) p) (int ?N - int R) (take (k - (?N - R)) ?B)
          = Some (drop R ?B @ take (k - (?N - R)) ?B @ drop (k - (?N - R)) (drop (?N - R) p))"
        using False lt k by (intro copy_to_mid) simp_all
      have dd: "drop (k - (?N - R)) (drop (?N - R) p) = drop k p"
        using False by simp
      have t: "take k (unread rb) = drop R ?B @ take (k - (?N - R)) ?B"
        using False lt k by (simp add: u min_def; arith)
      show ?thesis using le lp ne False
        by (simp add: Read_def n Let_def n0 s1 c s2 c2 dd g m t)
    qed
  qed
qed

subsection \<open>Writing into a ring\<close>

lemma take_app3: "length x = i \<Longrightarrow> length y = j \<Longrightarrow> take (i + j) (x @ y @ z) = x @ y"
  by simp

lemma drop_app_le: "n \<le> length x \<Longrightarrow> drop n (x @ y) = drop n x @ y"
  by simp

lemma drop_app_ge: "length x \<le> n \<Longrightarrow> drop n (x @ y) = drop (n - length x) y"
  by simp

lemma ring_write_flat:
  assumes "R \<le> W" "W + K \<le> length B" "length q = K"
  shows "ring_read (take W B @ q @ drop (W + K) B) R (W - R + K) = ring_read B R (W - R) @ q"
proof -
  let ?b = "take W B @ q @ drop (W + K) B"
  let ?x = "drop R (take W B)"
  have lx: "length ?x = W - R" using assms by simp
  have lb: "length ?b = length B" using assms by simp
  have "ring_read ?b R (W - R + K) = take (W - R + K) (drop R ?b)"
    using assms lb by (intro ring_read_flat) simp
  also have "drop R ?b = ?x @ q @ drop (W + K) B"
    using assms by (intro drop_app_le) simp
  also have "take (W - R + K) (?x @ q @ drop (W + K) B) = ?x @ q"
    using lx assms(3) by (rule take_app3)
  also have "?x = take (W - R) (drop R B)" by (rule drop_take)
  also have "take (W - R) (drop R B) = ring_read B R (W - R)"
    using assms by (intro ring_read_flat[symmetric]) simp
  finally show ?thesis .
qed

lemma ring_write_behind:
  assumes "W + K \<le> R" "R < length B" "length q = K"
  shows "ring_read (take W B @ q @ drop (W + K) B) R (length B - R + W + K)
         = ring_read B R (length B - R + W) @ q"
proof -
  let ?N = "length B"
  let ?b = "take W B @ q @ drop (W + K) B"
  have lb: "length ?b = ?N" using assms by simp
  have "ring_read ?b R (?N - R + W + K) = drop R ?b @ take (R + (?N - R + W + K) - length ?b) ?b"
    using assms lb by (intro ring_read_wrap) simp_all
  also have "R + (?N - R + W + K) - length ?b = W + K"
    using assms by (simp add: lb)
  also have "drop R ?b = drop R B"
  proof -
    have "drop R ?b = drop (R - length (take W B @ q)) (drop (W + K) B)"
      using assms drop_app_ge[of "take W B @ q" R "drop (W + K) B"] by simp
    also have "\<dots> = drop R B" using assms by simp
    finally show ?thesis .
  qed
  also have "take (W + K) ?b = take W B @ q"
    using take_app3[of "take W B" W q K "drop (W + K) B"] assms by simp
  also have "drop R B @ take W B @ q = (drop R B @ take (R + (?N - R + W) - ?N) B) @ q"
    using assms by simp
  also have "drop R B @ take (R + (?N - R + W) - ?N) B = ring_read B R (?N - R + W)"
    using assms by (intro ring_read_wrap[symmetric]) simp_all
  finally show ?thesis .
qed

lemma ring_write_split:
  assumes "R \<le> W" "W < length B" "length B < W + K" "W + K \<le> length B + R" "length q = K"
  shows "ring_read (drop (length B - W) q @ drop (W + K - length B) (take W B @ take (length B - W) q))
           R (W - R + K)
         = ring_read B R (W - R) @ q"
proof -
  let ?N = "length B"
  let ?c = "?N - W"
  let ?b1 = "take W B @ take ?c q"
  let ?b = "drop ?c q @ drop (W + K - ?N) ?b1"
  have l1: "length ?b1 = ?N" using assms by simp
  have l2: "length (drop ?c q) = W + K - ?N" using assms by simp
  have lb: "length ?b = ?N" using assms by (simp only: length_append l2 length_drop l1) simp
  have "ring_read ?b R (W - R + K) = drop R ?b @ take (R + (W - R + K) - length ?b) ?b"
    using assms lb by (intro ring_read_wrap) simp_all
  also have "R + (W - R + K) - length ?b = W + K - ?N"
    using assms by (simp add: lb)
  also have "take (W + K - ?N) ?b = drop ?c q"
    using l2 by simp
  also have "drop R ?b = drop R ?b1"
  proof -
    have "drop R ?b = drop (R - length (drop ?c q)) (drop (W + K - ?N) ?b1)"
      using assms l2 by (intro drop_app_ge) simp
    also have "\<dots> = drop R ?b1" using assms by (simp only: l2 drop_drop) simp
    finally show ?thesis .
  qed
  also have "drop R ?b1 = drop R (take W B) @ take ?c q"
    using assms by (intro drop_app_le) simp
  also have "(drop R (take W B) @ take ?c q) @ drop ?c q = drop R (take W B) @ q"
    by simp
  also have "drop R (take W B) = take (W - R) (drop R B)" by (rule drop_take)
  also have "take (W - R) (drop R B) = ring_read B R (W - R)"
    using assms by (intro ring_read_flat[symmetric]) simp
  finally show ?thesis .
qed

lemma Write_blocks:
  "Write rb p =
     (if length p = 0 then Some (0, None, rb)
      else if rb_isFull rb then Some (0, Some ErrIsFull, rb)
      else do { (e, q) \<leftarrow> Write_trunc p (Write_avail rb);
                (b, w1) \<leftarrow> Write_copy rb q;
                Some (int (length q), e,
                      rb\<lparr>rb_buf := b, rb_w := Write_wrap w1 (rb_size rb),
                         rb_isFull := (if Write_wrap w1 (rb_size rb) = rb_r rb then True
                                       else rb_isFull rb)\<rparr>) })"
  by (simp add: Write_def Write_avail_def Write_trunc_def Write_copy_def Write_wrap_def Let_def)

lemma Write_trunc_nat:
  "Write_trunc p (int a) =
     Some (if a < length p then Some ErrTooManyDataToWrite else None, take a p)"
  by (simp add: Write_trunc_def slice_def)

lemma Write_wrap_mod:
  "W + K \<le> N \<Longrightarrow> 0 < N \<Longrightarrow> Write_wrap (int W + int K) (int N) = (int W + int K) mod int N"
  by (auto simp: Write_wrap_def mod_pos_pos_trivial)

lemma Write_wrap_mod2:
  assumes "N < W + K" "W + K < 2 * N"
  shows "Write_wrap (int (W + K - N)) (int N) = (int W + int K) mod int N"
proof -
  have "(int W + int K) mod int N = (int W + int K - int N) mod int N"
    by simp
  also have "\<dots> = int W + int K - int N"
    using assms by (intro mod_pos_pos_trivial) auto
  finally show ?thesis using assms by (auto simp: Write_wrap_def)
qed

lemma copy_to_buf:
  "W + length q \<le> length B \<Longrightarrow>
     copy_to B (int W) q = Some (take W B @ q @ drop (W + length q) B)"
  by (simp add: copy_to_def min_def)

lemma copy_to_tail:
  "W \<le> length B \<Longrightarrow> length q = length B - W \<Longrightarrow> copy_to B (int W) q = Some (take W B @ q)"
  by (simp add: copy_to_def)

lemma copy_to_head:
  "length q \<le> length B \<Longrightarrow> copy_to B 0 q = Some (q @ drop (length q) B)"
  by (simp add: copy_to_def min_def)

lemma Write_copy_flat:
  assumes "rb_w rb = int W" "rb_size rb = int (length (rb_buf rb))"
    "W + length q \<le> length (rb_buf rb)"
  shows "Write_copy rb q =
           Some (take W (rb_buf rb) @ q @ drop (W + length q) (rb_buf rb), int W + int (length q))"
proof -
  have c: "copy_to (rb_buf rb) (int W) q
             = Some (take W (rb_buf rb) @ q @ drop (W + length q) (rb_buf rb))"
    using assms(3) by (rule copy_to_buf)
  have le: "int (length q) \<le> int (length (rb_buf rb)) - int W"
    using assms(3) by simp
  show ?thesis
    by (simp add: Write_copy_def Let_def assms(1,2) c le del: of_nat_add)
qed

lemma Write_copy_split:
  assumes "rb_w rb = int W" "rb_r rb = int R" "rb_size rb = int (length (rb_buf rb))"
    "R \<le> W" "W < length (rb_buf rb)" "length (rb_buf rb) < W + length q"
    "W + length q \<le> length (rb_buf rb) + R"
  shows "Write_copy rb q =
           Some (drop (length (rb_buf rb) - W) q
                   @ drop (W + length q - length (rb_buf rb))
                       (take W (rb_buf rb) @ take (length (rb_buf rb) - W) q),
                 int (W + length q - length (rb_buf rb)))"
proof -
  let ?B = "rb_buf rb"
  let ?N = "length ?B"
  define K where "K = length q"
  define c1 where "c1 = ?N - W"
  have lq: "length q = K" by (simp add: K_def)
  have ci: "int ?N - int W = int c1" using assms(5) by (simp add: c1_def)
  have ck: "c1 < K" "c1 \<le> K" unfolding c1_def K_def using assms(5,6) by arith+
  have s1: "slice q 0 (int c1) = Some (take c1 q)"
    using slice_nat[of 0 c1 q] ck by (simp add: lq)
  have cp1: "copy_to ?B (int W) (take c1 q) = Some (take W ?B @ take c1 q)"
    using assms(5) ck by (intro copy_to_tail) (simp_all add: lq c1_def)
  have s2: "slice q (int c1) (int K) = Some (drop c1 q)"
    using slice_nat[of c1 K q] ck by (simp add: lq)
  have cp2: "copy_to (take W ?B @ take c1 q) 0 (drop c1 q)
               = Some (drop c1 q @ drop (W + K - ?N) (take W ?B @ take c1 q))"
  proof -
    have "length (drop c1 q) = W + K - ?N" using assms(5,6) by (simp add: lq c1_def)
    moreover have "W + K - ?N \<le> length (take W ?B @ take c1 q)"
      using assms(4,5,7) ck by (simp add: lq c1_def)
    ultimately show ?thesis
      using copy_to_head[of "drop c1 q" "take W ?B @ take c1 q"] by simp
  qed
  have w1: "int K - int c1 = int (W + K - ?N)" using assms(5,6) by (simp add: c1_def lq)
  have g: "\<not> K \<le> c1" "R \<le> W" using ck assms(4) by simp_all
  show ?thesis
    by (simp add: Write_copy_def Let_def assms(1,2,3) lq ci g s1 cp1 s2 cp2 w1 c1_def[symmetric]
        del: of_nat_add of_nat_diff)
qed

lemma Write_buf:
  assumes "wf rb" "\<not> rb_isFull rb" "p \<noteq> []"
  defines "q \<equiv> take (nat (Free rb)) p"
  shows "\<exists>b. Write rb p =
            Some (int (length q),
                  (if int (length p) > Free rb then Some ErrTooManyDataToWrite else None),
                  rb\<lparr>rb_buf := b,
                     rb_w := (rb_w rb + int (length q)) mod rb_size rb,
                     rb_isFull := ((rb_w rb + int (length q)) mod rb_size rb = rb_r rb)\<rparr>)
           \<and> length b = length (rb_buf rb)
           \<and> ring_read b (nat (rb_r rb)) (nat (Length rb) + length q) = unread rb @ q"
proof -
  from assms(1) obtain R W where
    n: "rb_r rb = int R" "rb_w rb = int W" "rb_size rb = int (length (rb_buf rb))"
    and lt: "R < length (rb_buf rb)" "W < length (rb_buf rb)"
    using wf_nat by blast
  let ?B = "rb_buf rb"
  let ?N = "length ?B"
  define K where "K = length q"
  define a where "a = (if R \<le> W then ?N - W + R else R - W)"
  have lq: "length q = K" by (simp add: K_def)
  have lp: "length p \<noteq> 0" using assms(3) by simp
  have nf: "rb_isFull rb = False" using assms(2) by simp
  have F: "Free rb = int a" using lt by (auto simp: Free_def n nf a_def)
  have FN: "nat (Free rb) = a" by (simp only: F nat_int)
  have av: "Write_avail rb = int a" using lt by (auto simp: Write_avail_def n a_def)
  have q: "take a p = q" by (simp add: q_def FN)
  have tr: "Write_trunc p (int a) = Some (if a < length p then Some ErrTooManyDataToWrite else None, q)"
    by (simp only: Write_trunc_nat q)
  have a0: "0 < a" using lt by (auto simp: a_def)
  have K: "K \<le> a" "0 < K" using lp a0 by (auto simp: K_def q_def FN)
  have "\<exists>b w1. Write_copy rb q = Some (b, w1) \<and> length b = ?N
          \<and> Write_wrap w1 (int ?N) = (int W + int K) mod int ?N
          \<and> ring_read b R (nat (Length rb) + K) = unread rb @ q"
  proof (cases "R \<le> W")
    case True
    have L: "nat (Length rb) = W - R" using True by (auto simp: Length_def n nf)
    have u: "unread rb = ring_read ?B R (W - R)"
      by (simp add: unread_def L n)
    have Ka: "K \<le> ?N - W + R" using K True by (simp add: a_def)
    show ?thesis
    proof (cases "W + K \<le> ?N")
      case le: True
      have "Write_copy rb q = Some (take W ?B @ q @ drop (W + K) ?B, int W + int K)"
        using Write_copy_flat[of rb W q] n le by (simp add: lq)
      moreover have "length (take W ?B @ q @ drop (W + K) ?B) = ?N"
        using le lt by (simp add: lq)
      moreover have "Write_wrap (int W + int K) (int ?N) = (int W + int K) mod int ?N"
        using le lt by (intro Write_wrap_mod) auto
      moreover have "ring_read (take W ?B @ q @ drop (W + K) ?B) R (W - R + K)
                       = ring_read ?B R (W - R) @ q"
        using True le lq by (intro ring_write_flat) simp_all
      ultimately show ?thesis by (simp only: L u) blast
    next
      case gt: False
      let ?b = "drop (?N - W) q @ drop (W + K - ?N) (take W ?B @ take (?N - W) q)"
      have "Write_copy rb q = Some (?b, int (W + K - ?N))"
        using Write_copy_split[of rb W R q] n True lt gt Ka by (simp add: lq)
      moreover have "length ?b = ?N"
        using gt lt Ka by (simp add: lq)
      moreover have "Write_wrap (int (W + K - ?N)) (int ?N) = (int W + int K) mod int ?N"
        using gt lt Ka by (intro Write_wrap_mod2) auto
      moreover have "ring_read ?b R (W - R + K) = ring_read ?B R (W - R) @ q"
        using True gt lt lq Ka by (intro ring_write_split) simp_all
      ultimately show ?thesis by (simp only: L u) blast
    qed
  next
    case False
    have L: "nat (Length rb) = ?N - R + W" using False lt by (auto simp: Length_def n nf)
    have u: "unread rb = ring_read ?B R (?N - R + W)"
      by (simp add: unread_def L n)
    have Ka: "W + K \<le> R" using K False by (simp add: a_def)
    have "Write_copy rb q = Some (take W ?B @ q @ drop (W + K) ?B, int W + int K)"
      using Write_copy_flat[of rb W q] n Ka lt by (simp add: lq)
    moreover have "length (take W ?B @ q @ drop (W + K) ?B) = ?N"
      using Ka lt by (simp add: lq)
    moreover have "Write_wrap (int W + int K) (int ?N) = (int W + int K) mod int ?N"
      using Ka lt by (intro Write_wrap_mod) auto
    moreover have "ring_read (take W ?B @ q @ drop (W + K) ?B) R (?N - R + W + K)
                     = ring_read ?B R (?N - R + W) @ q"
      using Ka lt lq by (intro ring_write_behind) simp_all
    ultimately show ?thesis by (simp only: L u) blast
  qed
  then obtain b w1 where
    cp: "Write_copy rb q = Some (b, w1)" and lb: "length b = ?N"
    and wr: "Write_wrap w1 (int ?N) = (int W + int K) mod int ?N"
    and rr: "ring_read b R (nat (Length rb) + K) = unread rb @ q"
    by blast
  have "Write rb p =
          Some (int K, (if a < length p then Some ErrTooManyDataToWrite else None),
                rb\<lparr>rb_buf := b, rb_w := (int W + int K) mod int ?N,
                   rb_isFull := ((int W + int K) mod int ?N = int R)\<rparr>)"
    using lp by (simp add: Write_blocks nf av tr cp n wr lq)
  then show ?thesis using lb rr by (auto simp: n lq F)
qed

subsection \<open>The buffer after a write\<close>

lemma mod_wrap_int:
  assumes "0 \<le> x" "x < 2 * N"
  shows "(x::int) mod N = (if x < N then x else x - N)"
proof (cases "x < N")
  case True
  then show ?thesis using assms by (simp add: mod_pos_pos_trivial)
next
  case False
  have "x mod N = (x - N) mod N" by simp
  also have "\<dots> = x - N" using False assms by (intro mod_pos_pos_trivial) simp_all
  finally show ?thesis using False by simp
qed

lemma Free_nonneg: "wf rb \<Longrightarrow> 0 \<le> Free rb \<and> Free rb \<le> rb_size rb"
  by (auto simp: wf_def Free_def)

lemma Length_Free: "Length rb + Free rb = Capacity rb"
  by (simp add: Length_def Free_def Capacity_def)

lemma Length_after_write:
  assumes "wf rb" "\<not> rb_isFull rb" "0 < K" "K \<le> Free rb"
  defines "w' \<equiv> (rb_w rb + K) mod rb_size rb"
  shows "Length (rb\<lparr>rb_buf := b, rb_w := w', rb_isFull := (w' = rb_r rb)\<rparr>) = Length rb + K"
proof -
  have x: "0 \<le> rb_w rb + K" "rb_w rb + K < 2 * rb_size rb"
    using assms(1-4) by (auto simp: wf_def Free_def split: if_splits)
  have w': "w' = (if rb_w rb + K < rb_size rb then rb_w rb + K else rb_w rb + K - rb_size rb)"
    unfolding w'_def using x by (rule mod_wrap_int)
  show ?thesis
    using assms(1-4) by (auto simp: w' Length_def Free_def wf_def split: if_splits)
qed

lemma wf_after_write:
  assumes "wf rb" "length b = length (rb_buf rb)"
  shows "wf (rb\<lparr>rb_buf := b, rb_w := (rb_w rb + K) mod rb_size rb,
               rb_isFull := ((rb_w rb + K) mod rb_size rb = rb_r rb)\<rparr>)"
  using assms by (auto simp: wf_def)

lemma Write_unread:
  assumes "wf rb" "\<not> rb_isFull rb" "p \<noteq> []"
  shows "\<exists>rb'. Write rb p =
            Some (min (int (length p)) (Free rb),
                  (if int (length p) > Free rb then Some ErrTooManyDataToWrite else None), rb')
           \<and> wf rb'
           \<and> Length rb' = Length rb + min (int (length p)) (Free rb)
           \<and> unread rb' = unread rb @ take (nat (Free rb)) p
           \<and> rb_r rb' = rb_r rb \<and> rb_size rb' = rb_size rb
           \<and> rb_w rb' = (rb_w rb + min (int (length p)) (Free rb)) mod rb_size rb
           \<and> (rb_isFull rb' \<longleftrightarrow> rb_w rb' = rb_r rb')"
proof -
  define q where "q = take (nat (Free rb)) p"
  define K where "K = min (int (length p)) (Free rb)"
  define w' where "w' = (rb_w rb + K) mod rb_size rb"
  have fr: "0 \<le> Free rb" using assms(1) Free_nonneg by blast
  have f0: "Free rb \<noteq> 0" using assms(1,2) by (auto simp: wf_def Free_def)
  have lq: "int (length q) = K" using fr by (simp add: q_def K_def min_def; arith)
  have K: "0 < K" "K \<le> Free rb" using assms(3) fr f0 by (simp_all add: K_def)
  from Write_buf [OF assms] obtain b where
    w: "Write rb p = Some (K, (if int (length p) > Free rb then Some ErrTooManyDataToWrite else None),
                          rb\<lparr>rb_buf := b, rb_w := w', rb_isFull := (w' = rb_r rb)\<rparr>)"
    and lb: "length b = length (rb_buf rb)"
    and rr: "ring_read b (nat (rb_r rb)) (nat (Length rb) + length q) = unread rb @ q"
    unfolding q_def[symmetric] lq w'_def[symmetric] by blast
  let ?rb' = "rb\<lparr>rb_buf := b, rb_w := w', rb_isFull := (w' = rb_r rb)\<rparr>"
  have wf': "wf ?rb'" unfolding w'_def using assms(1) lb by (rule wf_after_write)
  have L: "Length ?rb' = Length rb + K"
    unfolding w'_def using assms(1,2) K by (rule Length_after_write)
  have L0: "0 \<le> Length rb" using assms(1) by (auto simp: wf_def Length_def)
  have "nat (Length ?rb') = nat (Length rb) + length q"
    using L L0 lq K by (simp add: nat_add_distrib)
  then have u: "unread ?rb' = unread rb @ q"
    using rr by (simp add: unread_def)
  show ?thesis
    using w wf' L u by (auto simp: K_def q_def w'_def)
qed

subsection \<open>Every operation on a well-formed buffer\<close>

lemma Read_cases:
  assumes "wf rb"
  shows "(p = [] \<longrightarrow> Read rb p = Some (0, None, p, rb)) \<and>
         (p \<noteq> [] \<and> Length rb = 0 \<longrightarrow> Read rb p = Some (0, Some ErrIsEmpty, p, rb)) \<and>
         (p \<noteq> [] \<and> Length rb \<noteq> 0 \<longrightarrow>
            Read rb p = Some (min (Length rb) (int (length p)), None,
                 take (nat (min (Length rb) (int (length p)))) (unread rb)
                   @ drop (nat (min (Length rb) (int (length p)))) p,
                 rb\<lparr>rb_r := (rb_r rb + min (Length rb) (int (length p))) mod rb_size rb,
                    rb_isFull := False\<rparr>))"
proof -
  have "Length rb = 0 \<Longrightarrow> rb_w rb = rb_r rb \<and> \<not> rb_isFull rb"
    using assms by (auto simp: wf_def Length_def split: if_splits)
  then show ?thesis
    using Read_unread [OF assms] by (auto simp: Read_def)
qed

lemma Length_pos: "wf rb \<Longrightarrow> 0 \<le> Length rb \<and> Length rb \<le> rb_size rb"
  by (auto simp: wf_def Length_def)

lemma wf_after_read:
  "wf rb \<Longrightarrow> 0 \<le> m \<Longrightarrow> wf (rb\<lparr>rb_r := (rb_r rb + m) mod rb_size rb, rb_isFull := False\<rparr>)"
  by (auto simp: wf_def)

lemma ReadByte_cases:
  assumes "wf rb"
  shows "(Length rb = 0 \<longrightarrow> ReadByte rb = Some (0, Some ErrIsEmpty, rb)) \<and>
         (Length rb \<noteq> 0 \<longrightarrow>
            ReadByte rb = Some (rb_buf rb ! nat (rb_r rb), None,
                                rb\<lparr>rb_r := (rb_r rb + 1) mod rb_size rb, rb_isFull := False\<rparr>))"
proof -
  have m: "(if rb_r rb + 1 = rb_size rb then 0 else rb_r rb + 1) = (rb_r rb + 1) mod rb_size rb"
    using assms by (auto simp: wf_def mod_pos_pos_trivial)
  have i: "index (rb_buf rb) (rb_r rb) = Some (rb_buf rb ! nat (rb_r rb))"
    using assms by (auto simp: wf_def index_def)
  have e: "Length rb = 0 \<longleftrightarrow> rb_w rb = rb_r rb \<and> \<not> rb_isFull rb"
    using assms by (auto simp: wf_def Length_def split: if_splits)
  show ?thesis
    by (simp add: ReadByte_def e i Let_def m)
qed

lemma Free_zero: "wf rb \<Longrightarrow> Free rb = 0 \<longleftrightarrow> rb_isFull rb"
  by (auto simp: wf_def Free_def split: if_splits)

lemma WriteByte_cases:
  assumes "wf rb"
  shows "(Free rb = 0 \<longrightarrow> WriteByte rb c = Some (Some ErrIsFull, rb)) \<and>
         (Free rb \<noteq> 0 \<longrightarrow>
            WriteByte rb c = Some (None,
               rb\<lparr>rb_buf := (rb_buf rb)[nat (rb_w rb) := c],
                  rb_w := (rb_w rb + 1) mod rb_size rb,
                  rb_isFull := ((rb_w rb + 1) mod rb_size rb = rb_r rb)\<rparr>))"
proof -
  have m: "(if rb_w rb + 1 = rb_size rb then 0 else rb_w rb + 1) = (rb_w rb + 1) mod rb_size rb"
    using assms by (auto simp: wf_def mod_pos_pos_trivial)
  have i: "store (rb_buf rb) (rb_w rb) c = Some ((rb_buf rb)[nat (rb_w rb) := c])"
    using assms by (auto simp: wf_def store_def)
  have e: "rb_w rb = rb_r rb \<and> rb_isFull rb \<longleftrightarrow> rb_isFull rb"
    using assms by (auto simp: wf_def)
  have f: "Free rb = 0 \<longleftrightarrow> rb_isFull rb" using assms by (rule Free_zero)
  have g: "rb_isFull rb \<longrightarrow> rb_w rb = rb_r rb"
    using assms by (auto simp: wf_def)
  show ?thesis
    using g by (auto simp: WriteByte_def f i Let_def m)
qed

lemma step_wf:
  assumes "wf rb" and lim: "rb_size rb \<le> lim"
  shows "\<exists>rb'. step lim rb a = Some rb' \<and> wf rb' \<and> rb_size rb' = rb_size rb"
proof (cases a)
  case (OpRead p)
  have "0 \<le> min (Length rb) (int (length p))" using Length_pos [OF assms(1)] by simp
  then have "wf (rb\<lparr>rb_r := (rb_r rb + min (Length rb) (int (length p))) mod rb_size rb,
                    rb_isFull := False\<rparr>)"
    using assms(1) by (intro wf_after_read)
  then show ?thesis
    using Read_cases [OF assms(1), of p] assms(1) OpRead
    by (cases "p = []"; cases "Length rb = 0") simp_all
next
  case OpReadByte
  have "wf (rb\<lparr>rb_r := (rb_r rb + 1) mod rb_size rb, rb_isFull := False\<rparr>)"
    using assms(1) by (intro wf_after_read) simp_all
  then show ?thesis
    using ReadByte_cases [OF assms(1)] assms(1) OpReadByte
    by (cases "Length rb = 0") simp_all
next
  case (OpWrite p)
  show ?thesis
  proof (cases "p = [] \<or> rb_isFull rb")
    case True
    then show ?thesis using assms(1) OpWrite by (auto simp: Write_def)
  next
    case False
    then show ?thesis using Write_unread [of rb p] assms(1) OpWrite by auto
  qed
next
  case (OpWriteByte c)
  have "wf (rb\<lparr>rb_buf := (rb_buf rb)[nat (rb_w rb) := c],
               rb_w := (rb_w rb + 1) mod rb_size rb,
               rb_isFull := ((rb_w rb + 1) mod rb_size rb = rb_r rb)\<rparr>)"
    using assms(1) by (intro wf_after_write) simp_all
  then show ?thesis
    using WriteByte_cases [OF assms(1), of c] assms(1) OpWriteByte
    by (cases "Free rb = 0") simp_all
next
  case (OpWriteString p)
  show ?thesis
  proof (cases "p = [] \<or> rb_isFull rb")
    case True
    then show ?thesis using assms(1) OpWriteString by (auto simp: Write_def WriteString_def)
  next
    case False
    then show ?thesis using Write_unread [of rb p] assms(1) OpWriteString
      by (auto simp: WriteString_def)
  qed
next
  case OpBytes
  then show ?thesis using Bytes_unread [OF assms(1) lim] assms(1) by simp
next
  case OpReset
  then show ?thesis using assms(1) by (auto simp: Reset_def wf_def)
qed (use assms(1) in simp_all)

lemma run_wf:
  "wf rb \<Longrightarrow> rb_size rb \<le> lim \<Longrightarrow>
     \<exists>rb'. run lim rb ops = Some rb' \<and> wf rb' \<and> rb_size rb' = rb_size rb"
proof (induction ops arbitrary: rb)
  case Nil
  then show ?case by simp
next
  case (Cons a ops)
  from step_wf [OF Cons.prems, of a] obtain rb1 where
    s: "step lim rb a = Some rb1" "wf rb1" "rb_size rb1 = rb_size rb" by blast
  then have "rb_size rb1 \<le> lim" using Cons.prems by simp
  from Cons.IH [OF s(2) this] s show ?case by auto
qed

lemma step_zero:
  assumes "rb_size rb = 0 \<and> rb_buf rb = [] \<and> rb_r rb = 0 \<and> rb_w rb = 0"
    and "step lim rb a = Some rb'"
  shows "rb_size rb' = 0 \<and> rb_buf rb' = [] \<and> rb_r rb' = 0 \<and> rb_w rb' = 0"
  using assms
  by (cases a)
     (auto simp: Read_def ReadByte_def Write_def WriteByte_def WriteString_def Bytes_def Reset_def
        slice_def copy_to_def go_mod_def index_def store_def make_bytes_def Let_def
        split: if_splits)

lemma reachable_inv:
  "reachable lim rb \<Longrightarrow>
     rb_size rb \<le> lim \<and>
     (wf rb \<or> (rb_size rb = 0 \<and> rb_buf rb = [] \<and> rb_r rb = 0 \<and> rb_w rb = 0))"
proof (induction rule: reachable.induct)
  case (fresh n rb)
  then show ?case
    by (auto simp: New_def make_bytes_def wf_def split: if_splits)
next
  case (after rb a rb')
  from after.IH have le: "rb_size rb \<le> lim" by simp
  from after.IH consider (wf) "wf rb"
    | (zero) "rb_size rb = 0 \<and> rb_buf rb = [] \<and> rb_r rb = 0 \<and> rb_w rb = 0" by blast
  then show ?case
  proof cases
    case wf
    from step_wf [OF wf le, of a] after.hyps(2) le show ?thesis by auto
  next
    case zero
    from step_zero [OF zero after.hyps(2)] zero le show ?thesis by simp
  qed
qed

section \<open>The claims\<close>

text \<open>
  Claim C5, as amended. \<open>New\<close> checks nothing itself: it fails exactly when its allocation
  fails, that is when the requested capacity is negative or above the allocator's limit
  \<open>lim\<close>. For every capacity \<open>n\<close> from 0 to \<open>lim\<close> it returns a buffer with zeroed storage of
  length \<open>n\<close>, both cursors at 0 and the full flag down; for a positive such \<open>n\<close> that
  buffer is well-formed with capacity \<open>n\<close>, and capacity 0 is accepted, not rejected.
\<close>

theorem New_fails_only_in_make:
  "(New lim n = None \<longleftrightarrow> n < 0 \<or> lim < n) \<and>
   (0 \<le> n \<and> n \<le> lim \<longrightarrow>
      New lim n = Some \<lparr>rb_buf = replicate (nat n) 0, rb_size = n, rb_r = 0, rb_w = 0,
                          rb_isFull = False\<rparr>) \<and>
   (0 < n \<and> n \<le> lim \<longrightarrow> (\<exists>rb. New lim n = Some rb \<and> wf rb \<and> Capacity rb = n))"
  by (auto simp: New_def make_bytes_def wf_def Capacity_def)

theorem New_fails_only_in_make_witness:
  "New (2 ^ 48) 3 = Some \<lparr>rb_buf = [0, 0, 0], rb_size = 3, rb_r = 0, rb_w = 0, rb_isFull = False\<rparr> \<and>
   New (2 ^ 48) (- 1) = None \<and>
   New (2 ^ 48) (2 ^ 48 + 1) = None"
  using New_fails_only_in_make [of "2 ^ 48" 3] New_fails_only_in_make [of "2 ^ 48" "- 1"]
    New_fails_only_in_make [of "2 ^ 48" "2 ^ 48 + 1"]
  by (simp add: numeral_3_eq_3)

text \<open>
  Claim C5 as stated says that a capacity \<open>\<le> 0\<close> is rejected and that every positive
  capacity succeeds. With the allocator limit of 64-bit Linux, \<open>2 ^ 48\<close>, the constructor
  returns a buffer at capacity 0 and fails at the positive capacity \<open>2 ^ 62\<close>.
\<close>

theorem New_counterexample:
  "New (2 ^ 48) 0 = Some \<lparr>rb_buf = [], rb_size = 0, rb_r = 0, rb_w = 0, rb_isFull = False\<rparr> \<and>
   New (2 ^ 48) (2 ^ 62) = None"
  by (simp add: New_def make_bytes_def)

text \<open>
  Claim C2 as stated expects the second write to accept 2 bytes and report
  \<open>ErrTooManyDataToWrite\<close>. With the bytes 1, 2, 3 and then 4, 5, 6 (and the allocator limit
  of 64-bit Linux) it accepts all 3 bytes without error, and \<open>Bytes\<close> returns 4 bytes:
  after writing 3 and reading 2, one byte is buffered and the free space is 3.
\<close>

theorem wrap_scenario_counterexample:
  "New (2 ^ 48) 4
     = Some \<lparr>rb_buf = [0, 0, 0, 0], rb_size = 4, rb_r = 0, rb_w = 0, rb_isFull = False\<rparr> \<and>
   Write \<lparr>rb_buf = [0, 0, 0, 0], rb_size = 4, rb_r = 0, rb_w = 0, rb_isFull = False\<rparr> [1, 2, 3]
     = Some (3, None, \<lparr>rb_buf = [1, 2, 3, 0], rb_size = 4, rb_r = 0, rb_w = 3, rb_isFull = False\<rparr>) \<and>
   Read \<lparr>rb_buf = [1, 2, 3, 0], rb_size = 4, rb_r = 0, rb_w = 3, rb_isFull = False\<rparr> [0, 0]
     = Some (2, None, [1, 2],
             \<lparr>rb_buf = [1, 2, 3, 0], rb_size = 4, rb_r = 2, rb_w = 3, rb_isFull = False\<rparr>) \<and>
   Free \<lparr>rb_buf = [1, 2, 3, 0], rb_size = 4, rb_r = 2, rb_w = 3, rb_isFull = False\<rparr> = 3 \<and>
   Write \<lparr>rb_buf = [1, 2, 3, 0], rb_size = 4, rb_r = 2, rb_w = 3, rb_isFull = False\<rparr> [4, 5, 6]
     = Some (3, None, \<lparr>rb_buf = [5, 6, 3, 4], rb_size = 4, rb_r = 2, rb_w = 2, rb_isFull = True\<rparr>) \<and>
   Bytes (2 ^ 48) \<lparr>rb_buf = [5, 6, 3, 4], rb_size = 4, rb_r = 2, rb_w = 2, rb_isFull = True\<rparr>
     = Some ([3, 4, 5, 6],
             \<lparr>rb_buf = [5, 6, 3, 4], rb_size = 4, rb_r = 2, rb_w = 2, rb_isFull = True\<rparr>)"
proof -
  have z: "replicate 4 (0::byte) = [0, 0, 0, 0]"
    by (simp add: numeral_eq_Suc)
  show ?thesis
    by (simp add: New_def make_bytes_def z Write_def Read_def Bytes_def Free_def slice_def
        copy_to_def go_mod_def Let_def)
qed

text \<open>
  Claim C2, as amended. From a fresh buffer of capacity 4 (on any platform whose allocator
  grants 4 bytes): writing 3 bytes \<open>a, b, c\<close>, then reading 2 bytes (which returns
  \<open>a, b\<close>) leaves 1 byte buffered and 3 bytes free; writing 3 more bytes \<open>d, e, f\<close> then
  accepts all 3 with no error, wraps around the end of the storage and fills the buffer;
  \<open>Bytes\<close> returns the retained byte \<open>c\<close> followed by \<open>d, e, f\<close>.
\<close>

theorem wrap_scenario:
  assumes "4 \<le> lim"
  shows
  "New lim 4 = Some \<lparr>rb_buf = [0, 0, 0, 0], rb_size = 4, rb_r = 0, rb_w = 0, rb_isFull = False\<rparr> \<and>
   Write \<lparr>rb_buf = [0, 0, 0, 0], rb_size = 4, rb_r = 0, rb_w = 0, rb_isFull = False\<rparr> [a, b, c]
     = Some (3, None, \<lparr>rb_buf = [a, b, c, 0], rb_size = 4, rb_r = 0, rb_w = 3, rb_isFull = False\<rparr>) \<and>
   Read \<lparr>rb_buf = [a, b, c, 0], rb_size = 4, rb_r = 0, rb_w = 3, rb_isFull = False\<rparr> [x, y]
     = Some (2, None, [a, b],
             \<lparr>rb_buf = [a, b, c, 0], rb_size = 4, rb_r = 2, rb_w = 3, rb_isFull = False\<rparr>) \<and>
   Length \<lparr>rb_buf = [a, b, c, 0], rb_size = 4, rb_r = 2, rb_w = 3, rb_isFull = False\<rparr> = 1 \<and>
   Free \<lparr>rb_buf = [a, b, c, 0], rb_size = 4, rb_r = 2, rb_w = 3, rb_isFull = False\<rparr> = 3 \<and>
   Write \<lparr>rb_buf = [a, b, c, 0], rb_size = 4, rb_r = 2, rb_w = 3, rb_isFull = False\<rparr> [d, e, f]
     = Some (3, None, \<lparr>rb_buf = [e, f, c, d], rb_size = 4, rb_r = 2, rb_w = 2, rb_isFull = True\<rparr>) \<and>
   Bytes lim \<lparr>rb_buf = [e, f, c, d], rb_size = 4, rb_r = 2, rb_w = 2, rb_isFull = True\<rparr>
     = Some ([c, d, e, f],
             \<lparr>rb_buf = [e, f, c, d], rb_size = 4, rb_r = 2, rb_w = 2, rb_isFull = True\<rparr>)"
proof -
  have z: "replicate 4 (0::byte) = [0, 0, 0, 0]"
    by (simp add: numeral_eq_Suc)
  show ?thesis
    using assms
    by (simp add: New_def make_bytes_def z Write_def Read_def Bytes_def Free_def Length_def
        slice_def copy_to_def go_mod_def Let_def)
qed

theorem wrap_scenario_witness:
  "(4::int) \<le> 2 ^ 48 \<and>
   New (2 ^ 48) 4
     = Some \<lparr>rb_buf = [0, 0, 0, 0], rb_size = 4, rb_r = 0, rb_w = 0, rb_isFull = False\<rparr> \<and>
   Write \<lparr>rb_buf = [10, 20, 30, 0], rb_size = 4, rb_r = 2, rb_w = 3, rb_isFull = False\<rparr>
       [40, 50, 60]
     = Some (3, None,
             \<lparr>rb_buf = [50, 60, 30, 40], rb_size = 4, rb_r = 2, rb_w = 2, rb_isFull = True\<rparr>) \<and>
   Bytes (2 ^ 48) \<lparr>rb_buf = [50, 60, 30, 40], rb_size = 4, rb_r = 2, rb_w = 2, rb_isFull = True\<rparr>
     = Some ([30, 40, 50, 60],
             \<lparr>rb_buf = [50, 60, 30, 40], rb_size = 4, rb_r = 2, rb_w = 2, rb_isFull = True\<rparr>)"
proof -
  have h: "(4::int) \<le> 2 ^ 48" by simp
  from wrap_scenario [OF h, of 10 20 30 0 0 40 50 60] h show ?thesis by simp
qed

text \<open>
  Claim C9. On every well-formed buffer whose capacity is within the allocator's limit
  (as the capacity of every buffer \<open>New\<close> returned is), \<open>Bytes\<close> does not panic, returns
  the unread bytes oldest first (as many as \<open>Length\<close> says, the \<open>i\<close>-th one being the byte of the storage
  at position read cursor plus \<open>i\<close> modulo the capacity, so across the end of the
  storage), returns the empty sequence on an empty buffer, and returns the buffer
  unchanged.
\<close>

theorem Bytes_peek:
  assumes "wf rb" "Capacity rb \<le> lim"
  shows "Bytes lim rb = Some (unread rb, rb) \<and>
         int (length (unread rb)) = Length rb \<and>
         (\<forall>i < length (unread rb).
            unread rb ! i = rb_buf rb ! ((nat (rb_r rb) + i) mod nat (Capacity rb))) \<and>
         (IsEmpty rb \<longrightarrow> Bytes lim rb = Some ([], rb))"
proof -
  have s: "rb_size rb \<le> lim" using assms(2) by (simp add: Capacity_def)
  have b: "Bytes lim rb = Some (unread rb, rb)" using assms(1) s by (rule Bytes_unread)
  have l: "int (length (unread rb)) = Length rb" using assms(1) by (rule length_unread)
  have c: "nat (Capacity rb) = length (rb_buf rb)"
    using assms(1) by (auto simp: wf_def Capacity_def)
  have n: "\<forall>i < length (unread rb).
            unread rb ! i = rb_buf rb ! ((nat (rb_r rb) + i) mod nat (Capacity rb))"
    by (simp add: unread_def ring_read_def c)
  have e: "IsEmpty rb \<longrightarrow> Bytes lim rb = Some ([], rb)"
    by (simp add: IsEmpty_def Bytes_def)
  from b l n e show ?thesis by blast
qed

theorem Bytes_peek_witness:
  "wf \<lparr>rb_buf = [5, 6, 3, 4], rb_size = 4, rb_r = 2, rb_w = 1, rb_isFull = False\<rparr> \<and>
   Capacity \<lparr>rb_buf = [5, 6, 3, 4], rb_size = 4, rb_r = 2, rb_w = 1, rb_isFull = False\<rparr> \<le> 2 ^ 48 \<and>
   Bytes (2 ^ 48) \<lparr>rb_buf = [5, 6, 3, 4], rb_size = 4, rb_r = 2, rb_w = 1, rb_isFull = False\<rparr>
     = Some ([3, 4, 5],
             \<lparr>rb_buf = [5, 6, 3, 4], rb_size = 4, rb_r = 2, rb_w = 1, rb_isFull = False\<rparr>)"
proof -
  let ?rb = "\<lparr>rb_buf = [5, 6, 3, 4], rb_size = 4, rb_r = 2, rb_w = 1, rb_isFull = False\<rparr>"
  have h: "wf ?rb" by (simp add: wf_def)
  have c: "Capacity ?rb \<le> 2 ^ 48" by (simp add: Capacity_def)
  have u: "unread ?rb = [3, 4, 5]"
    by (simp add: unread_def ring_read_def Length_def upt_conv_Cons)
  from Bytes_peek [OF h c] h c u show ?thesis by simp
qed

text \<open>
  Claim C6. On a well-formed, non-empty buffer, \<open>Read\<close> into a non-empty destination
  \<open>p\<close> returns the count \<open>min (Length rb) (length p)\<close> with no error, also when that
  is less than \<open>length p\<close>; the destination starts with that many of the oldest unread
  bytes and keeps its remaining elements; the read cursor advances by the count modulo
  the capacity.
\<close>

theorem Read_partial:
  assumes "wf rb" "\<not> IsEmpty rb" "p \<noteq> []"
  shows "Read rb p =
           Some (min (Length rb) (int (length p)), None,
                 take (nat (min (Length rb) (int (length p)))) (unread rb)
                   @ drop (nat (min (Length rb) (int (length p)))) p,
                 rb\<lparr>rb_r := (rb_r rb + min (Length rb) (int (length p))) mod Capacity rb,
                    rb_isFull := False\<rparr>)"
proof -
  have "Length rb \<noteq> 0"
    using assms(1,2) by (auto simp: wf_def IsEmpty_def Length_def)
  then show ?thesis
    using Read_unread [OF assms(1) _ assms(3)] by (simp add: Capacity_def)
qed

theorem Read_partial_witness:
  "wf \<lparr>rb_buf = [5, 6, 3, 4], rb_size = 4, rb_r = 2, rb_w = 1, rb_isFull = False\<rparr> \<and>
   \<not> IsEmpty \<lparr>rb_buf = [5, 6, 3, 4], rb_size = 4, rb_r = 2, rb_w = 1, rb_isFull = False\<rparr> \<and>
   Read \<lparr>rb_buf = [5, 6, 3, 4], rb_size = 4, rb_r = 2, rb_w = 1, rb_isFull = False\<rparr> [0, 0, 0, 0, 0]
     = Some (3, None, [3, 4, 5, 0, 0],
             \<lparr>rb_buf = [5, 6, 3, 4], rb_size = 4, rb_r = 1, rb_w = 1, rb_isFull = False\<rparr>)"
proof -
  let ?rb = "\<lparr>rb_buf = [5, 6, 3, 4], rb_size = 4, rb_r = 2, rb_w = 1, rb_isFull = False\<rparr>"
  have h1: "wf ?rb" by (simp add: wf_def)
  have h2: "\<not> IsEmpty ?rb" by (simp add: IsEmpty_def)
  have h3: "[0, 0, 0, 0, 0] \<noteq> ([] :: byte list)" by simp
  have u: "unread ?rb = [3, 4, 5]"
    by (simp add: unread_def ring_read_def Length_def upt_conv_Cons)
  have l: "Length ?rb = 3" by (simp add: Length_def)
  from Read_partial [OF h1 h2 h3] h1 h2 show ?thesis
    by (simp add: u l Capacity_def)
qed

text \<open>
  Claim C3. On a well-formed buffer that is not full, \<open>Write\<close> of a non-empty \<open>p\<close> does not
  panic. If \<open>p\<close> is longer than the free space, the call returns the free space as its
  count together with \<open>ErrTooManyDataToWrite\<close>, and the unread bytes afterwards are the
  old ones followed by exactly the first \<open>Free rb\<close> bytes of \<open>p\<close>. Otherwise it returns
  \<open>length p\<close> with no error, and the unread bytes afterwards are the old ones followed
  by all of \<open>p\<close>.
\<close>

theorem Write_truncates:
  assumes "wf rb" "\<not> IsFull rb" "p \<noteq> []"
  shows "\<exists>n e rb'. Write rb p = Some (n, e, rb') \<and>
           (int (length p) > Free rb \<longrightarrow>
              n = Free rb \<and> e = Some ErrTooManyDataToWrite \<and>
              unread rb' = unread rb @ take (nat (Free rb)) p) \<and>
           (int (length p) \<le> Free rb \<longrightarrow>
              n = int (length p) \<and> e = None \<and> unread rb' = unread rb @ p)"
proof -
  have nf: "\<not> rb_isFull rb" using assms(2) by (simp add: IsFull_def)
  from Write_unread [OF assms(1) nf assms(3)] obtain rb' where
    w: "Write rb p =
          Some (min (int (length p)) (Free rb),
                (if int (length p) > Free rb then Some ErrTooManyDataToWrite else None), rb')"
    and u: "unread rb' = unread rb @ take (nat (Free rb)) p"
    by blast
  have "int (length p) \<le> Free rb \<Longrightarrow> take (nat (Free rb)) p = p"
    by simp
  then show ?thesis using w u by (auto simp: min_def)
qed

theorem Write_truncates_witness:
  "wf \<lparr>rb_buf = [1, 2, 3, 0], rb_size = 4, rb_r = 2, rb_w = 3, rb_isFull = False\<rparr> \<and>
   \<not> IsFull \<lparr>rb_buf = [1, 2, 3, 0], rb_size = 4, rb_r = 2, rb_w = 3, rb_isFull = False\<rparr> \<and>
   (\<exists>rb'. Write \<lparr>rb_buf = [1, 2, 3, 0], rb_size = 4, rb_r = 2, rb_w = 3, rb_isFull = False\<rparr>
             [4, 5, 6, 7, 8] = Some (3, Some ErrTooManyDataToWrite, rb') \<and>
          unread rb' = [3, 4, 5, 6])"
proof -
  let ?rb = "\<lparr>rb_buf = [1, 2, 3, 0], rb_size = 4, rb_r = 2, rb_w = 3, rb_isFull = False\<rparr>"
  have h1: "wf ?rb" by (simp add: wf_def)
  have h2: "\<not> IsFull ?rb" by (simp add: IsFull_def)
  have h3: "[4, 5, 6, 7, 8] \<noteq> ([] :: byte list)" by simp
  have f: "Free ?rb = 3" by (simp add: Free_def)
  have u: "unread ?rb = [3]"
    by (simp add: unread_def ring_read_def Length_def)
  from Write_truncates [OF h1 h2 h3] h1 h2 show ?thesis
    by (simp add: f u)
qed

text \<open>
  Claim C1. On a well-formed empty buffer, wherever its cursors are, writing a non-empty
  \<open>p\<close> no longer than the capacity accepts all of it without error, and a following
  \<open>Read\<close> into a destination of the same length returns that length, no error, and
  exactly \<open>p\<close>; the buffer is then empty again.
\<close>

theorem Write_Read_roundtrip:
  assumes "wf rb" "IsEmpty rb" "p \<noteq> []" "int (length p) \<le> Capacity rb" "length d = length p"
  shows "\<exists>rb1 rb2. Write rb p = Some (int (length p), None, rb1) \<and>
                    Read rb1 d = Some (int (length p), None, p, rb2) \<and>
                    wf rb2 \<and> IsEmpty rb2"
proof -
  have e: "\<not> rb_isFull rb" "rb_w rb = rb_r rb" using assms(2) by (simp_all add: IsEmpty_def)
  have F: "Free rb = rb_size rb" using e by (simp add: Free_def)
  have L: "Length rb = 0" using e by (simp add: Length_def)
  have u0: "unread rb = []" by (simp add: unread_def L ring_read_def)
  have le: "int (length p) \<le> rb_size rb" using assms(4) by (simp add: Capacity_def)
  have m: "min (int (length p)) (rb_size rb) = int (length p)" using le by simp
  from Write_unread [OF assms(1) e(1) assms(3)] obtain rb1 where
    w: "Write rb p = Some (int (length p), None, rb1)"
    and wf1: "wf rb1"
    and L1: "Length rb1 = int (length p)"
    and u1: "unread rb1 = p"
    and c1: "rb_r rb1 = rb_r rb" "rb_size rb1 = rb_size rb"
            "rb_w rb1 = (rb_w rb + int (length p)) mod rb_size rb"
    using le by (auto simp: F L u0 m)
  have ne: "Length rb1 \<noteq> 0" using L1 assms(3) by simp
  have d: "d \<noteq> []" using assms(3,5) by auto
  let ?rb2 = "rb1\<lparr>rb_r := (rb_r rb1 + int (length p)) mod rb_size rb1, rb_isFull := False\<rparr>"
  have r: "Read rb1 d = Some (int (length p), None, p, ?rb2)"
    using Read_unread [OF wf1 ne d] by (simp add: L1 assms(5) u1)
  have wf2: "wf ?rb2" using wf1 by (intro wf_after_read) simp_all
  have e2: "IsEmpty ?rb2" by (simp add: IsEmpty_def c1 e(2))
  from w r wf2 e2 show ?thesis by blast
qed

theorem Write_Read_roundtrip_witness:
  "wf \<lparr>rb_buf = [1, 2, 3, 0], rb_size = 4, rb_r = 3, rb_w = 3, rb_isFull = False\<rparr> \<and>
   IsEmpty \<lparr>rb_buf = [1, 2, 3, 0], rb_size = 4, rb_r = 3, rb_w = 3, rb_isFull = False\<rparr> \<and>
   (\<exists>rb1 rb2.
      Write \<lparr>rb_buf = [1, 2, 3, 0], rb_size = 4, rb_r = 3, rb_w = 3, rb_isFull = False\<rparr> [7, 8, 9]
        = Some (3, None, rb1) \<and>
      Read rb1 [0, 0, 0] = Some (3, None, [7, 8, 9], rb2))"
proof -
  let ?rb = "\<lparr>rb_buf = [1, 2, 3, 0], rb_size = 4, rb_r = 3, rb_w = 3, rb_isFull = False\<rparr>"
  have h1: "wf ?rb" by (simp add: wf_def)
  have h2: "IsEmpty ?rb" by (simp add: IsEmpty_def)
  have h3: "[7, 8, 9] \<noteq> ([] :: byte list)" by simp
  have h4: "int (length [7, 8, 9 :: byte]) \<le> Capacity ?rb" by (simp add: Capacity_def)
  have h5: "length [0, 0, 0 :: byte] = length [7, 8, 9 :: byte]" by simp
  from Write_Read_roundtrip [OF h1 h2 h3 h4 h5] h1 h2 show ?thesis
    by auto
qed

text \<open>
  Claim C4, as amended. On a well-formed buffer, which has positive capacity, \<open>Read\<close> with a non-empty destination and \<open>ReadByte\<close>
  return \<open>ErrIsEmpty\<close> exactly when \<open>Length\<close> is 0, \<open>Write\<close> with a non-empty input and
  \<open>WriteByte\<close> return \<open>ErrIsFull\<close> exactly when \<open>Free\<close> is 0, and in each of these error
  cases the buffer (and the destination of \<open>Read\<close>) is returned unchanged with count 0.
\<close>

theorem empty_full_errors:
  assumes "wf rb"
  shows "(p \<noteq> [] \<longrightarrow>
            (\<exists>n e p' rb'. Read rb p = Some (n, e, p', rb') \<and>
               (e = Some ErrIsEmpty \<longleftrightarrow> Length rb = 0) \<and>
               (e = Some ErrIsEmpty \<longrightarrow> n = 0 \<and> p' = p \<and> rb' = rb))) \<and>
         (\<exists>b e rb'. ReadByte rb = Some (b, e, rb') \<and>
               (e = Some ErrIsEmpty \<longleftrightarrow> Length rb = 0) \<and>
               (e = Some ErrIsEmpty \<longrightarrow> rb' = rb)) \<and>
         (q \<noteq> [] \<longrightarrow>
            (\<exists>n e rb'. Write rb q = Some (n, e, rb') \<and>
               (e = Some ErrIsFull \<longleftrightarrow> Free rb = 0) \<and>
               (e = Some ErrIsFull \<longrightarrow> n = 0 \<and> rb' = rb))) \<and>
         (\<exists>e rb'. WriteByte rb c = Some (e, rb') \<and>
               (e = Some ErrIsFull \<longleftrightarrow> Free rb = 0) \<and>
               (e = Some ErrIsFull \<longrightarrow> rb' = rb))"
proof -
  have rd: "p \<noteq> [] \<longrightarrow>
            (\<exists>n e p' rb'. Read rb p = Some (n, e, p', rb') \<and>
               (e = Some ErrIsEmpty \<longleftrightarrow> Length rb = 0) \<and>
               (e = Some ErrIsEmpty \<longrightarrow> n = 0 \<and> p' = p \<and> rb' = rb))"
    using Read_cases [OF assms, of p] by (cases "Length rb = 0") auto
  have rb: "\<exists>b e rb'. ReadByte rb = Some (b, e, rb') \<and>
               (e = Some ErrIsEmpty \<longleftrightarrow> Length rb = 0) \<and>
               (e = Some ErrIsEmpty \<longrightarrow> rb' = rb)"
    using ReadByte_cases [OF assms] by (cases "Length rb = 0") auto
  have wr: "q \<noteq> [] \<longrightarrow>
            (\<exists>n e rb'. Write rb q = Some (n, e, rb') \<and>
               (e = Some ErrIsFull \<longleftrightarrow> Free rb = 0) \<and>
               (e = Some ErrIsFull \<longrightarrow> n = 0 \<and> rb' = rb))"
  proof (cases "rb_isFull rb")
    case True
    then show ?thesis using Free_zero [OF assms] by (auto simp: Write_def)
  next
    case False
    then show ?thesis
      using Write_unread [OF assms False, of q] Free_zero [OF assms] by auto
  qed
  have wb: "\<exists>e rb'. WriteByte rb c = Some (e, rb') \<and>
               (e = Some ErrIsFull \<longleftrightarrow> Free rb = 0) \<and>
               (e = Some ErrIsFull \<longrightarrow> rb' = rb)"
    using WriteByte_cases [OF assms, of c] by (cases "Free rb = 0") auto
  from rd rb wr wb show ?thesis by blast
qed

theorem empty_full_errors_witness:
  "wf \<lparr>rb_buf = [7], rb_size = 1, rb_r = 0, rb_w = 0, rb_isFull = True\<rparr> \<and>
   Free \<lparr>rb_buf = [7], rb_size = 1, rb_r = 0, rb_w = 0, rb_isFull = True\<rparr> = 0 \<and>
   Write \<lparr>rb_buf = [7], rb_size = 1, rb_r = 0, rb_w = 0, rb_isFull = True\<rparr> [8]
     = Some (0, Some ErrIsFull, \<lparr>rb_buf = [7], rb_size = 1, rb_r = 0, rb_w = 0, rb_isFull = True\<rparr>) \<and>
   WriteByte \<lparr>rb_buf = [7], rb_size = 1, rb_r = 0, rb_w = 0, rb_isFull = True\<rparr> 8
     = Some (Some ErrIsFull, \<lparr>rb_buf = [7], rb_size = 1, rb_r = 0, rb_w = 0, rb_isFull = True\<rparr>) \<and>
   (\<exists>n e p' rb'. Read \<lparr>rb_buf = [7], rb_size = 1, rb_r = 0, rb_w = 0, rb_isFull = True\<rparr> [0]
                    = Some (n, e, p', rb') \<and> e \<noteq> Some ErrIsEmpty)"
proof -
  let ?rb = "\<lparr>rb_buf = [7], rb_size = 1, rb_r = 0, rb_w = 0, rb_isFull = True\<rparr>"
  have h: "wf ?rb" by (simp add: wf_def)
  have f: "Free ?rb = 0" by (simp add: Free_def)
  have l: "Length ?rb = 1" by (simp add: Length_def)
  from empty_full_errors [OF h, of "[0]" "[8]" 8] h f l show ?thesis
    by auto
qed

text \<open>
  Claim C4 as stated covers every buffer. The buffer \<open>New\<close> returns for capacity 0 has
  \<open>Free = 0\<close>, yet \<open>Write\<close> of one byte reports \<open>ErrTooManyDataToWrite\<close>, not \<open>ErrIsFull\<close>, and
  raises the full flag, and \<open>WriteByte\<close> panics; afterwards \<open>Length = 0\<close>, yet \<open>Read\<close> and
  \<open>ReadByte\<close> panic instead of returning \<open>ErrIsEmpty\<close>.
\<close>

theorem empty_full_errors_counterexample:
  "New (2 ^ 48) 0 = Some \<lparr>rb_buf = [], rb_size = 0, rb_r = 0, rb_w = 0, rb_isFull = False\<rparr> \<and>
   Free \<lparr>rb_buf = [], rb_size = 0, rb_r = 0, rb_w = 0, rb_isFull = False\<rparr> = 0 \<and>
   Write \<lparr>rb_buf = [], rb_size = 0, rb_r = 0, rb_w = 0, rb_isFull = False\<rparr> [1]
     = Some (0, Some ErrTooManyDataToWrite,
             \<lparr>rb_buf = [], rb_size = 0, rb_r = 0, rb_w = 0, rb_isFull = True\<rparr>) \<and>
   WriteByte \<lparr>rb_buf = [], rb_size = 0, rb_r = 0, rb_w = 0, rb_isFull = False\<rparr> 1 = None \<and>
   Length \<lparr>rb_buf = [], rb_size = 0, rb_r = 0, rb_w = 0, rb_isFull = True\<rparr> = 0 \<and>
   Read \<lparr>rb_buf = [], rb_size = 0, rb_r = 0, rb_w = 0, rb_isFull = True\<rparr> [0] = None \<and>
   ReadByte \<lparr>rb_buf = [], rb_size = 0, rb_r = 0, rb_w = 0, rb_isFull = True\<rparr> = None"
  by (simp add: New_def make_bytes_def Free_def Length_def Write_def WriteByte_def Read_def
      ReadByte_def slice_def copy_to_def go_mod_def index_def store_def Let_def)

text \<open>
  Claim C7. A buffer constructed with a positive capacity \<open>n\<close> (one the allocator grants,
  so that the buffer exists) survives every sequence of
  public operations without a panic, and after each such sequence the capacity is still
  \<open>n\<close>, both cursors lie in \<open>[0, n)\<close>, and \<open>Length + Free = Capacity\<close>.
\<close>

theorem invariants_after_operations:
  assumes "0 < n" "n \<le> lim"
  shows "\<exists>rb0. New lim n = Some rb0 \<and>
           (\<forall>ops. \<exists>rb. run lim rb0 ops = Some rb \<and> Capacity rb = n \<and>
                     0 \<le> rb_r rb \<and> rb_r rb < Capacity rb \<and>
                     0 \<le> rb_w rb \<and> rb_w rb < Capacity rb \<and>
                     Length rb + Free rb = Capacity rb)"
proof -
  let ?rb0 = "\<lparr>rb_buf = replicate (nat n) 0, rb_size = n, rb_r = 0, rb_w = 0, rb_isFull = False\<rparr>"
  have new: "New lim n = Some ?rb0" using assms by (simp add: New_def make_bytes_def)
  have wf0: "wf ?rb0" using assms by (simp add: wf_def)
  have le0: "rb_size ?rb0 \<le> lim" using assms by simp
  have "\<exists>rb. run lim ?rb0 ops = Some rb \<and> Capacity rb = n \<and>
                     0 \<le> rb_r rb \<and> rb_r rb < Capacity rb \<and>
                     0 \<le> rb_w rb \<and> rb_w rb < Capacity rb \<and>
                     Length rb + Free rb = Capacity rb" for ops
  proof -
    from run_wf [OF wf0 le0, of ops] obtain rb where
      r: "run lim ?rb0 ops = Some rb" "wf rb" "rb_size rb = n" by auto
    have "0 \<le> rb_r rb \<and> rb_r rb < Capacity rb \<and> 0 \<le> rb_w rb \<and> rb_w rb < Capacity rb"
      using r(2) by (simp add: wf_def Capacity_def)
    then show ?thesis using r Length_Free [of rb] by (simp add: Capacity_def)
  qed
  then show ?thesis using new by blast
qed

theorem invariants_after_operations_witness:
  "\<exists>rb. run (2 ^ 48) \<lparr>rb_buf = [0, 0], rb_size = 2, rb_r = 0, rb_w = 0, rb_isFull = False\<rparr>
            [OpWrite [1, 2, 3], OpReadByte, OpWriteByte 4, OpRead [0], OpBytes, OpReset] = Some rb \<and>
         Capacity rb = 2 \<and> 0 \<le> rb_r rb \<and> rb_r rb < 2 \<and> 0 \<le> rb_w rb \<and> rb_w rb < 2 \<and>
         Length rb + Free rb = 2"
proof -
  have z: "replicate 2 (0::byte) = [0, 0]" by (simp add: numeral_eq_Suc)
  have p: "(0::int) < 2" "(2::int) \<le> 2 ^ 48" by simp_all
  from invariants_after_operations [OF p]
  have "\<forall>ops. \<exists>rb. run (2 ^ 48) \<lparr>rb_buf = [0, 0], rb_size = 2, rb_r = 0, rb_w = 0, rb_isFull = False\<rparr> ops
            = Some rb \<and> Capacity rb = 2 \<and> 0 \<le> rb_r rb \<and> rb_r rb < Capacity rb \<and>
            0 \<le> rb_w rb \<and> rb_w rb < Capacity rb \<and> Length rb + Free rb = Capacity rb"
    by (simp add: New_def make_bytes_def z)
  then show ?thesis by metis
qed

text \<open>
  Claim C8 as stated covers any \<open>Write\<close> or \<open>WriteByte\<close> call on any buffer. On a full
  buffer of capacity 1 both calls are rejected with \<open>ErrIsFull\<close> and move no cursor, yet
  the full flag is true after them. On the buffer \<open>New\<close> returns for capacity 0, \<open>Write\<close>
  of one byte accepts nothing and moves no cursor, yet raises the full flag.
\<close>

theorem isFull_counterexample:
  "New (2 ^ 48) 1 = Some \<lparr>rb_buf = [0], rb_size = 1, rb_r = 0, rb_w = 0, rb_isFull = False\<rparr> \<and>
   WriteByte \<lparr>rb_buf = [0], rb_size = 1, rb_r = 0, rb_w = 0, rb_isFull = False\<rparr> 7
     = Some (None, \<lparr>rb_buf = [7], rb_size = 1, rb_r = 0, rb_w = 0, rb_isFull = True\<rparr>) \<and>
   WriteByte \<lparr>rb_buf = [7], rb_size = 1, rb_r = 0, rb_w = 0, rb_isFull = True\<rparr> 8
     = Some (Some ErrIsFull, \<lparr>rb_buf = [7], rb_size = 1, rb_r = 0, rb_w = 0, rb_isFull = True\<rparr>) \<and>
   Write \<lparr>rb_buf = [7], rb_size = 1, rb_r = 0, rb_w = 0, rb_isFull = True\<rparr> [8]
     = Some (0, Some ErrIsFull, \<lparr>rb_buf = [7], rb_size = 1, rb_r = 0, rb_w = 0, rb_isFull = True\<rparr>) \<and>
   IsFull \<lparr>rb_buf = [7], rb_size = 1, rb_r = 0, rb_w = 0, rb_isFull = True\<rparr> \<and>
   New (2 ^ 48) 0 = Some \<lparr>rb_buf = [], rb_size = 0, rb_r = 0, rb_w = 0, rb_isFull = False\<rparr> \<and>
   Write \<lparr>rb_buf = [], rb_size = 0, rb_r = 0, rb_w = 0, rb_isFull = False\<rparr> [1]
     = Some (0, Some ErrTooManyDataToWrite,
             \<lparr>rb_buf = [], rb_size = 0, rb_r = 0, rb_w = 0, rb_isFull = True\<rparr>) \<and>
   IsFull \<lparr>rb_buf = [], rb_size = 0, rb_r = 0, rb_w = 0, rb_isFull = True\<rparr>"
  by (simp add: New_def make_bytes_def WriteByte_def Write_def store_def IsFull_def slice_def
      copy_to_def Let_def)

text \<open>
  Claim C8, as amended. On a well-formed buffer, which has positive capacity: a \<open>Write\<close> that accepts at least one byte,
  or a \<open>WriteByte\<close> that returns no error, advances the write cursor by the accepted count
  modulo the capacity, and afterwards the full flag is true exactly when the write cursor
  equals the read cursor, in which case the buffer holds \<open>Capacity\<close> bytes; a call that
  accepts nothing leaves the buffer as it was. After a \<open>Read\<close> that returns a positive
  count or a \<open>ReadByte\<close> that returns no error, the full flag is false.
\<close>

theorem isFull_after_calls:
  assumes "wf rb"
  shows "(\<exists>n e rb'. Write rb p = Some (n, e, rb') \<and>
            (0 < n \<longrightarrow> rb_w rb' = (rb_w rb + n) mod Capacity rb \<and> rb_r rb' = rb_r rb \<and>
                       (IsFull rb' \<longleftrightarrow> rb_w rb' = rb_r rb') \<and>
                       (IsFull rb' \<longrightarrow> Length rb' = Capacity rb')) \<and>
            (n = 0 \<longrightarrow> rb' = rb)) \<and>
         (\<exists>e rb'. WriteByte rb c = Some (e, rb') \<and>
            (e = None \<longrightarrow> rb_w rb' = (rb_w rb + 1) mod Capacity rb \<and> rb_r rb' = rb_r rb \<and>
                          (IsFull rb' \<longleftrightarrow> rb_w rb' = rb_r rb') \<and>
                          (IsFull rb' \<longrightarrow> Length rb' = Capacity rb')) \<and>
            (e \<noteq> None \<longrightarrow> rb' = rb)) \<and>
         (\<exists>n e d' rb'. Read rb d = Some (n, e, d', rb') \<and> (0 < n \<longrightarrow> \<not> IsFull rb')) \<and>
         (\<exists>b e rb'. ReadByte rb = Some (b, e, rb') \<and> (e = None \<longrightarrow> \<not> IsFull rb'))"
proof -
  have full_len: "\<And>x. IsFull x \<Longrightarrow> rb_w x = rb_r x \<Longrightarrow> Length x = Capacity x"
    by (simp add: IsFull_def Length_def Capacity_def)
  have wr: "\<exists>n e rb'. Write rb p = Some (n, e, rb') \<and>
            (0 < n \<longrightarrow> rb_w rb' = (rb_w rb + n) mod Capacity rb \<and> rb_r rb' = rb_r rb \<and>
                       (IsFull rb' \<longleftrightarrow> rb_w rb' = rb_r rb') \<and>
                       (IsFull rb' \<longrightarrow> Length rb' = Capacity rb')) \<and>
            (n = 0 \<longrightarrow> rb' = rb)"
  proof (cases "p = [] \<or> rb_isFull rb")
    case True
    then show ?thesis by (auto simp: Write_def)
  next
    case False
    then have nf: "\<not> rb_isFull rb" and ne: "p \<noteq> []" by simp_all
    define K where "K = min (int (length p)) (Free rb)"
    have f: "0 < Free rb" using Free_nonneg [OF assms] Free_zero [OF assms] nf by auto
    have lp: "0 < int (length p)" using ne by simp
    have pos: "0 < K" "K \<noteq> 0" using f lp unfolding K_def min_def by auto
    from Write_unread [OF assms nf ne] obtain rb' where
      w: "Write rb p = Some (K,
            (if int (length p) > Free rb then Some ErrTooManyDataToWrite else None), rb')"
      and c: "rb_r rb' = rb_r rb" "rb_size rb' = rb_size rb"
             "rb_w rb' = (rb_w rb + K) mod rb_size rb"
             "rb_isFull rb' \<longleftrightarrow> rb_w rb' = rb_r rb'"
      unfolding K_def by blast
    have "IsFull rb' \<longrightarrow> Length rb' = Capacity rb'"
      using full_len [of rb'] c(4) by (auto simp: IsFull_def)
    then show ?thesis using w c pos by (auto simp: IsFull_def Capacity_def)
  qed
  have wb: "\<exists>e rb'. WriteByte rb c = Some (e, rb') \<and>
            (e = None \<longrightarrow> rb_w rb' = (rb_w rb + 1) mod Capacity rb \<and> rb_r rb' = rb_r rb \<and>
                          (IsFull rb' \<longleftrightarrow> rb_w rb' = rb_r rb') \<and>
                          (IsFull rb' \<longrightarrow> Length rb' = Capacity rb')) \<and>
            (e \<noteq> None \<longrightarrow> rb' = rb)"
    using WriteByte_cases [OF assms, of c]
    by (cases "Free rb = 0") (auto simp: IsFull_def Capacity_def Length_def)
  have rd: "\<exists>n e d' rb'. Read rb d = Some (n, e, d', rb') \<and> (0 < n \<longrightarrow> \<not> IsFull rb')"
    using Read_cases [OF assms, of d]
    by (cases "d = []"; cases "Length rb = 0") (auto simp: IsFull_def)
  have rb: "\<exists>b e rb'. ReadByte rb = Some (b, e, rb') \<and> (e = None \<longrightarrow> \<not> IsFull rb')"
    using ReadByte_cases [OF assms]
    by (cases "Length rb = 0") (auto simp: IsFull_def)
  from wr wb rd rb show ?thesis by blast
qed

theorem isFull_after_calls_witness:
  "wf \<lparr>rb_buf = [5, 0], rb_size = 2, rb_r = 0, rb_w = 1, rb_isFull = False\<rparr> \<and>
   (\<exists>rb'. Write \<lparr>rb_buf = [5, 0], rb_size = 2, rb_r = 0, rb_w = 1, rb_isFull = False\<rparr> [7, 8]
            = Some (1, Some ErrTooManyDataToWrite, rb') \<and>
          rb_w rb' = 0 \<and> rb_r rb' = 0 \<and> IsFull rb' \<and> Length rb' = Capacity rb') \<and>
   (\<exists>rb'. WriteByte \<lparr>rb_buf = [5, 0], rb_size = 2, rb_r = 0, rb_w = 1, rb_isFull = False\<rparr> 7
            = Some (None, rb') \<and>
          rb_w rb' = 0 \<and> rb_r rb' = 0 \<and> IsFull rb' \<and> Length rb' = Capacity rb') \<and>
   (\<exists>d' rb'. Read \<lparr>rb_buf = [5, 0], rb_size = 2, rb_r = 0, rb_w = 1, rb_isFull = False\<rparr> [0]
               = Some (1, None, d', rb') \<and> \<not> IsFull rb') \<and>
   (\<exists>b rb'. ReadByte \<lparr>rb_buf = [5, 0], rb_size = 2, rb_r = 0, rb_w = 1, rb_isFull = False\<rparr>
              = Some (b, None, rb') \<and> \<not> IsFull rb')"
proof -
  let ?rb = "\<lparr>rb_buf = [5, 0], rb_size = 2, rb_r = 0, rb_w = 1, rb_isFull = False\<rparr>"
  have h: "wf ?rb" by (simp add: wf_def)
  have c: "Capacity ?rb = 2" by (simp add: Capacity_def)
  note t = isFull_after_calls [OF h, of "[7, 8]" 7 "[0]", unfolded c]
  obtain rw where w: "Write ?rb [7, 8] = Some (1, Some ErrTooManyDataToWrite, rw)"
    by (simp add: Write_def slice_def copy_to_def Let_def)
  obtain rc where wb: "WriteByte ?rb 7 = Some (None, rc)"
    by (simp add: WriteByte_def store_def Let_def)
  obtain d' rd where rd: "Read ?rb [0] = Some (1, None, d', rd)"
    by (simp add: Read_def slice_def copy_to_def go_mod_def Let_def)
  obtain b re where re: "ReadByte ?rb = Some (b, None, re)"
    by (simp add: ReadByte_def index_def Let_def)
  from t have "\<exists>n e rb'. Write ?rb [7, 8] = Some (n, e, rb') \<and>
            (0 < n \<longrightarrow> rb_w rb' = (rb_w ?rb + n) mod 2 \<and> rb_r rb' = rb_r ?rb \<and>
                       (IsFull rb' \<longleftrightarrow> rb_w rb' = rb_r rb') \<and>
                       (IsFull rb' \<longrightarrow> Length rb' = Capacity rb')) \<and>
            (n = 0 \<longrightarrow> rb' = ?rb)"
    by (rule conjunct1)
  with w have w': "rb_w rw = 0 \<and> rb_r rw = 0 \<and> IsFull rw \<and> Length rw = Capacity rw"
    by simp
  from t have "\<exists>e rb'. WriteByte ?rb 7 = Some (e, rb') \<and>
            (e = None \<longrightarrow> rb_w rb' = (rb_w ?rb + 1) mod 2 \<and> rb_r rb' = rb_r ?rb \<and>
                          (IsFull rb' \<longleftrightarrow> rb_w rb' = rb_r rb') \<and>
                          (IsFull rb' \<longrightarrow> Length rb' = Capacity rb')) \<and>
            (e \<noteq> None \<longrightarrow> rb' = ?rb)"
    by (elim conjE)
  with wb have wb': "rb_w rc = 0 \<and> rb_r rc = 0 \<and> IsFull rc \<and> Length rc = Capacity rc"
    by simp
  from t have "\<exists>n e d' rb'. Read ?rb [0] = Some (n, e, d', rb') \<and> (0 < n \<longrightarrow> \<not> IsFull rb')"
    by (elim conjE)
  with rd have rd': "\<not> IsFull rd" by simp
  from t have "\<exists>b e rb'. ReadByte ?rb = Some (b, e, rb') \<and> (e = None \<longrightarrow> \<not> IsFull rb')"
    by (elim conjE)
  with re have re': "\<not> IsFull re" by simp
  from h w w' wb wb' rd rd' re re' show ?thesis by blast
qed

text \<open>
  Claim C10. On a platform with any allocator limit, in every buffer reachable from a
  freshly constructed one (of any capacity \<open>New\<close> accepts) by public operations, a raised full flag implies that the read and
  write cursors coincide; so the guard of \<open>WriteByte\<close>, cursors equal and flag raised,
  holds exactly when the guard of \<open>Write\<close>, flag raised, does.
\<close>

theorem full_flag_implies_coincident_cursors:
  assumes "reachable lim rb"
  shows "(rb_isFull rb \<longrightarrow> rb_r rb = rb_w rb) \<and>
         ((rb_w rb = rb_r rb \<and> rb_isFull rb) \<longleftrightarrow> rb_isFull rb)"
  using reachable_inv [OF assms] by (auto simp: wf_def)

theorem full_flag_implies_coincident_cursors_witness:
  "reachable (2 ^ 48) \<lparr>rb_buf = [7], rb_size = 1, rb_r = 0, rb_w = 0, rb_isFull = True\<rparr> \<and>
   rb_isFull \<lparr>rb_buf = [7], rb_size = 1, rb_r = 0, rb_w = 0, rb_isFull = True\<rparr> \<and>
   rb_r \<lparr>rb_buf = [7], rb_size = 1, rb_r = 0, rb_w = 0, rb_isFull = True\<rparr>
     = rb_w \<lparr>rb_buf = [7], rb_size = 1, rb_r = 0, rb_w = 0, rb_isFull = True\<rparr>"
proof -
  let ?rb0 = "\<lparr>rb_buf = [0], rb_size = 1, rb_r = 0, rb_w = 0, rb_isFull = False\<rparr>"
  let ?rb1 = "\<lparr>rb_buf = [7], rb_size = 1, rb_r = 0, rb_w = 0, rb_isFull = True\<rparr>"
  have "New (2 ^ 48) 1 = Some ?rb0" by (simp add: New_def make_bytes_def)
  then have r0: "reachable (2 ^ 48) ?rb0" by (rule reachable.fresh)
  have "step (2 ^ 48) ?rb0 (OpWriteByte 7) = Some ?rb1"
    by (simp add: WriteByte_def store_def Let_def)
  with r0 have r1: "reachable (2 ^ 48) ?rb1" by (rule reachable.after)
  from full_flag_implies_coincident_cursors [OF r1] r1 show ?thesis by simp
qed

end
